theory Spec2Isabelle
  imports Complex_Main "HOL-Library.Log_Nat" "HOL-Library.Multiset"
begin

section \<open>Python values\<close>

text \<open>
  A Python \<open>str\<close> is a sequence of Unicode code points, each the int that \<open>ord\<close>
  gives; \<open>len\<close> counts code points and \<open>==\<close> compares them one by one.  A token list is
  a list of such strings.
\<close>

type_synonym codepoint = int
type_synonym pystr = "codepoint list"

text \<open>
  A finite Python \<open>float\<close> is an IEEE 754 binary64 number, that is a dyadic rational
  with a 53 bit significand.  It is represented by its value.  The exponent range is not
  modelled: every number that the scorers compute is a quotient, product or root of counts
  and lengths of the input lists, far inside the range of binary64.
\<close>

type_synonym pyfloat = rat

subsection \<open>Rounding to binary64\<close>

text \<open>\<open>ilog2 x\<close> is \<open>\<lfloor>log\<^sub>2 x\<rfloor>\<close> for \<open>x > 0\<close>, computed from the bit lengths of numerator
  and denominator.\<close>

definition ilog2 :: "rat \<Rightarrow> int" where
  "ilog2 x = (let (p, q) = quotient_of x; e = bitlen p - bitlen q
              in if 2 powi e \<le> x then e else e - 1)"

definition round_half_even :: "rat \<Rightarrow> int" where
  "round_half_even q = (let f = \<lfloor>q\<rfloor>; r = q - of_int f
     in if r < 1 / 2 then f else if 1 / 2 < r then f + 1
        else if even f then f else f + 1)"

text \<open>\<open>fl x\<close> is the binary64 number nearest to \<open>x\<close>, ties to the even significand.\<close>

definition fl :: "rat \<Rightarrow> pyfloat" where
  "fl x = (if x = 0 then 0 else
     let a = \<bar>x\<bar>; s = 2 powi (ilog2 a - 52)
     in sgn x * of_int (round_half_even (a / s)) * s)"

text \<open>Integer square root \<open>\<lfloor>\<surd>n\<rfloor>\<close>, two bits of \<open>n\<close> at a time.\<close>

definition isqrt_step :: "int \<Rightarrow> int \<Rightarrow> int" where
  "isqrt_step r n = (if (r + 1) * (r + 1) \<le> n then r + 1 else r)"

function isqrt :: "int \<Rightarrow> int" where
  "isqrt n = (if n < 2 then n else isqrt_step (2 * isqrt (n div 4)) n)"
  by pat_completeness auto
termination
  by (relation "measure nat") auto

declare isqrt.simps [simp del]

subsection \<open>The float operations the scorers use\<close>

text \<open>\<open>a / b\<close> on two Python ints: the correctly rounded quotient.\<close>

definition int_truediv :: "int \<Rightarrow> int \<Rightarrow> pyfloat" where
  "int_truediv a b = fl (of_int a / of_int b)"

text \<open>\<open>float(n)\<close>, also the implicit conversion of an int operand.\<close>

definition float_of_int :: "int \<Rightarrow> pyfloat" where
  "float_of_int n = fl (of_int n)"

definition float_mul :: "pyfloat \<Rightarrow> pyfloat \<Rightarrow> pyfloat" where
  "float_mul x y = fl (x * y)"

definition float_div :: "pyfloat \<Rightarrow> pyfloat \<Rightarrow> pyfloat" where
  "float_div x y = fl (x / y)"

definition float_sub :: "pyfloat \<Rightarrow> pyfloat \<Rightarrow> pyfloat" where
  "float_sub x y = fl (x - y)"

text \<open>\<open>math.sqrt\<close> on a non-negative float: the correctly rounded square root.  With
  \<open>k = \<lfloor>log\<^sub>2 \<surd>x\<rfloor>\<close> and \<open>s = 2\<^sup>k\<^sup>-\<^sup>5\<^sup>2\<close>, the significand is \<open>\<surd>y\<close> rounded, where
  \<open>y = x / s\<^sup>2\<close>; \<open>\<surd>y\<close> is compared with \<open>r + 1/2\<close> through the squares.\<close>

definition float_sqrt :: "pyfloat \<Rightarrow> pyfloat" where
  "float_sqrt x = (if x \<le> 0 then 0 else
     let k = ilog2 x div 2; s = 2 powi (k - 52); y = x / (s * s);
         r = isqrt \<lfloor>y\<rfloor>; m = of_int (r * r + r) + 1 / 4;
         n = (if y < m then r else if m < y then r + 1
              else if even r then r else r + 1)
     in of_int n * s)"

text \<open>\<open>math.sqrt(n)\<close> on a Python int converts the int first.\<close>

definition math_sqrt :: "int \<Rightarrow> pyfloat" where
  "math_sqrt n = float_sqrt (float_of_int n)"

section \<open>The scorers\<close>

text \<open>A \<open>defaultdict(int)\<close> is a total map from keys to ints, \<open>0\<close> where nothing was
  stored.\<close>

type_synonym counts = "pystr \<Rightarrow> int"

definition no_counts :: counts where
  "no_counts = (\<lambda>_. 0)"

definition incr :: "counts \<Rightarrow> pystr \<Rightarrow> counts" where
  "incr c w = c(w := c w + 1)"

subsection \<open>\<open>word_frequency_match\<close>\<close>

text \<open>The first loop: \<open>original_counts[word] += 1\<close> for every word of the original.\<close>

definition count_words :: "pystr list \<Rightarrow> counts" where
  "count_words ws = foldl incr no_counts ws"

text \<open>One round of the second loop, on the pair of \<open>original_counts\<close> and
  \<open>matched_count\<close>.\<close>

definition match_step :: "counts \<times> int \<Rightarrow> pystr \<Rightarrow> counts \<times> int" where
  "match_step st w = (case st of (c, matched) \<Rightarrow>
     if c w > 0 then (c(w := c w - 1), matched + 1) else (c, matched))"

definition word_frequency_match :: "pystr list \<Rightarrow> pystr list \<Rightarrow> pyfloat" where
  "word_frequency_match original plagiarized =
     (if original = [] \<or> plagiarized = [] then 0
      else let original_counts = count_words original;
               matched_count = snd (foldl match_step (original_counts, 0) plagiarized)
           in int_truediv matched_count (int (length plagiarized)))"

subsection \<open>\<open>cosine_similarity_score\<close>\<close>

text \<open>
  \<open>get_synonyms\<close> comes from the module \<open>synonym_database\<close>, which is not part of the
  sources at hand; it is a parameter \<open>gs\<close> of the scorer, returning the synonyms of a
  token in the order in which iterating over the result yields them.

  \<open>vocab\<close> is \<open>list(vocab_set)\<close>: the distinct members of the set in some order.  The
  order taken here is that of first occurrence; \<open>cosine_with_vocab\<close> is the rest of the
  function for a given \<open>vocab\<close>.
\<close>

definition build_vocab :: "(pystr \<Rightarrow> pystr list) \<Rightarrow> pystr list \<Rightarrow> pystr list" where
  "build_vocab gs tokens = remdups (concat (map gs tokens))"

definition word_counts :: "(pystr \<Rightarrow> pystr list) \<Rightarrow> pystr list \<Rightarrow> counts" where
  "word_counts gs tokens = foldl (\<lambda>c token. foldl incr c (gs token)) no_counts tokens"

definition get_vector :: "(pystr \<Rightarrow> pystr list) \<Rightarrow> pystr list \<Rightarrow> pystr list \<Rightarrow> int list" where
  "get_vector gs vocab tokens = map (word_counts gs tokens) vocab"

definition dot_product :: "int list \<Rightarrow> int list \<Rightarrow> int" where
  "dot_product u v = sum_list (map (\<lambda>(a, b). a * b) (zip u v))"

definition sum_squares :: "int list \<Rightarrow> int" where
  "sum_squares v = sum_list (map (\<lambda>x. x ^ 2) v)"

definition cosine_with_vocab ::
  "(pystr \<Rightarrow> pystr list) \<Rightarrow> pystr list \<Rightarrow> pystr list \<Rightarrow> pystr list \<Rightarrow> pyfloat" where
  "cosine_with_vocab gs vocab original plagiarized =
     (let original_vector = get_vector gs vocab original;
          plagiarized_vector = get_vector gs vocab plagiarized;
          dot = dot_product original_vector plagiarized_vector;
          norm_original = math_sqrt (sum_squares original_vector);
          norm_plagiarized = math_sqrt (sum_squares plagiarized_vector)
      in if norm_original = 0 \<or> norm_plagiarized = 0 then 0
         else float_div (float_of_int dot) (float_mul norm_original norm_plagiarized))"

definition cosine_similarity_score ::
  "(pystr \<Rightarrow> pystr list) \<Rightarrow> pystr list \<Rightarrow> pystr list \<Rightarrow> pyfloat" where
  "cosine_similarity_score gs original plagiarized =
     (if original = [] \<or> plagiarized = [] then 0
      else cosine_with_vocab gs (build_vocab gs (original @ plagiarized)) original plagiarized)"

subsection \<open>\<open>edit_distance_similarity\<close>\<close>

text \<open>The table \<open>dp\<close> is a list of rows; \<open>dp[i][j] = v\<close> replaces one cell.  Every index
  the function uses is inside the table.\<close>

type_synonym table = "int list list"

definition new_table :: "nat \<Rightarrow> nat \<Rightarrow> table" where
  "new_table len_original len_plagiarized =
     replicate (len_original + 1) (replicate (len_plagiarized + 1) 0)"

definition set_cell :: "table \<Rightarrow> nat \<Rightarrow> nat \<Rightarrow> int \<Rightarrow> table" where
  "set_cell dp i j v = dp[i := (dp ! i)[j := v]]"

definition init_column :: "nat \<Rightarrow> table \<Rightarrow> table" where
  "init_column len_original dp =
     foldl (\<lambda>dp i. set_cell dp i 0 (int i)) dp [0..<len_original + 1]"

definition init_row :: "nat \<Rightarrow> table \<Rightarrow> table" where
  "init_row len_plagiarized dp =
     foldl (\<lambda>dp j. set_cell dp 0 j (int j)) dp [0..<len_plagiarized + 1]"

definition cell_value :: "pystr \<Rightarrow> pystr \<Rightarrow> table \<Rightarrow> nat \<Rightarrow> nat \<Rightarrow> int" where
  "cell_value original plagiarized dp i j =
     (if original ! (i - 1) = plagiarized ! (j - 1) then dp ! (i - 1) ! (j - 1)
      else 1 + min (dp ! (i - 1) ! j) (min (dp ! i ! (j - 1)) (dp ! (i - 1) ! (j - 1))))"

definition fill_row :: "pystr \<Rightarrow> pystr \<Rightarrow> table \<Rightarrow> nat \<Rightarrow> table" where
  "fill_row original plagiarized dp i =
     foldl (\<lambda>dp j. set_cell dp i j (cell_value original plagiarized dp i j)) dp
       [1..<length plagiarized + 1]"

definition fill_table :: "pystr \<Rightarrow> pystr \<Rightarrow> table \<Rightarrow> table" where
  "fill_table original plagiarized dp =
     foldl (fill_row original plagiarized) dp [1..<length original + 1]"

definition edit_table :: "pystr \<Rightarrow> pystr \<Rightarrow> table" where
  "edit_table original plagiarized =
     fill_table original plagiarized
       (init_row (length plagiarized)
         (init_column (length original)
           (new_table (length original) (length plagiarized))))"

definition edit_distance_similarity :: "pystr \<Rightarrow> pystr \<Rightarrow> pyfloat" where
  "edit_distance_similarity original plagiarized =
     (if original = [] \<or> plagiarized = [] then 0
      else let len_original = length original;
               len_plagiarized = length plagiarized;
               dp = edit_table original plagiarized;
               max_length = max len_original len_plagiarized
           in float_sub (float_of_int 1)
                (int_truediv (dp ! len_original ! len_plagiarized) (int max_length)))"

subsection \<open>\<open>calculate_similarity\<close>\<close>

text \<open>A call either returns a value or raises; the exceptions that occur from the
  preprocessing on are the two \<open>ValueError\<close>s of \<open>main\<close>.\<close>

datatype pyvalue = PyNone | PyFloat pyfloat

datatype py_exception = ValueError_original_empty | ValueError_plagiarized_empty

text \<open>The body of \<open>calculate_similarity\<close> is its docstring and nothing else, so a call
  evaluates no scorer, raises nothing and returns \<open>None\<close>.\<close>

definition calculate_similarity ::
  "pystr list \<Rightarrow> pystr list \<Rightarrow> pystr \<Rightarrow> pystr \<Rightarrow> py_exception + pyvalue" where
  "calculate_similarity original_tokens plagiarized_tokens original_str plagiarized_str =
     Inr PyNone"

section \<open>What the specification says, in its own words\<close>

text \<open>
  The frequency-match scorer, as the specification describes it: a multiset of the
  original tokens; the candidate is walked left to right, and a token whose remaining
  count is positive is matched and consumes one occurrence.
\<close>

fun greedy_match :: "pystr multiset \<Rightarrow> pystr list \<Rightarrow> nat" where
  "greedy_match M [] = 0"
| "greedy_match M (w # ws) =
     (if count M w > 0 then Suc (greedy_match (M - {#w#}) ws) else greedy_match M ws)"

text \<open>
  The Levenshtein distance between the prefixes of length \<open>i\<close> and \<open>j\<close> of two strings,
  by the textbook recurrence: deleting, inserting and substituting a character cost
  \<open>1\<close> each, keeping an equal character costs nothing.
\<close>

fun lev :: "pystr \<Rightarrow> pystr \<Rightarrow> nat \<Rightarrow> nat \<Rightarrow> nat" where
  "lev a b 0 j = j"
| "lev a b (Suc i) 0 = Suc i"
| "lev a b (Suc i) (Suc j) =
     min (min (lev a b i (Suc j) + 1) (lev a b (Suc i) j + 1))
         (lev a b i j + (if a ! i = b ! j then 0 else 1))"

definition levenshtein :: "pystr \<Rightarrow> pystr \<Rightarrow> nat" where
  "levenshtein a b = lev a b (length a) (length b)"

section \<open>Invariants of the table\<close>

text \<open>A table for strings of lengths \<open>m\<close> and \<open>n\<close> has \<open>m + 1\<close> rows of \<open>n + 1\<close> cells.\<close>

definition table_ok :: "nat \<Rightarrow> nat \<Rightarrow> table \<Rightarrow> bool" where
  "table_ok m n dp \<longleftrightarrow> length dp = m + 1 \<and> (\<forall>r\<le>m. length (dp ! r) = n + 1)"

text \<open>When the loops are about to write cell \<open>(i, j)\<close>, the first row, the first column,
  the rows above \<open>i\<close> and the cells of row \<open>i\<close> left of \<open>j\<close> hold the distances of the
  prefixes.\<close>

definition cells_done :: "pystr \<Rightarrow> pystr \<Rightarrow> nat \<Rightarrow> nat \<Rightarrow> table \<Rightarrow> bool" where
  "cells_done a b i j dp \<longleftrightarrow>
     (\<forall>r c. r \<le> length a \<and> c \<le> length b \<and> (r = 0 \<or> c = 0 \<or> r < i \<or> (r = i \<and> c < j))
        \<longrightarrow> dp ! r ! c = int (lev a b r c))"

text \<open>
  The distance as the least cost of an edit script.  \<open>edits a b n\<close>: some script turns
  \<open>a\<close> into \<open>b\<close> at cost \<open>n\<close>; a script works through both strings from left to right
  and keeps a character for nothing, or substitutes, deletes or inserts one for \<open>1\<close>.
\<close>

inductive edits :: "pystr \<Rightarrow> pystr \<Rightarrow> nat \<Rightarrow> bool" where
  finish: "edits [] [] 0"
| keep: "edits a b n \<Longrightarrow> edits (a @ [x]) (b @ [x]) n"
| substitute: "edits a b n \<Longrightarrow> edits (a @ [x]) (b @ [y]) (Suc n)"
| delete: "edits a b n \<Longrightarrow> edits (a @ [x]) b (Suc n)"
| insert: "edits a b n \<Longrightarrow> edits a (b @ [y]) (Suc n)"

section \<open>Reading and preprocessing\<close>

subsection \<open>Character classes\<close>

definition is_chinese_char :: "pystr \<Rightarrow> bool" where
  "is_chinese_char char = (case char of [c] \<Rightarrow> 0x4E00 \<le> c \<and> c \<le> 0x9FFF | _ \<Rightarrow> False)"

text \<open>The characters that \<open>\s\<close> matches in a \<open>str\<close> pattern, which are also the
  characters that \<open>str.strip()\<close> strips: those for which \<open>str.isspace\<close> holds.\<close>

definition whitespace :: "codepoint list" where
  "whitespace = [0x9, 0xA, 0xB, 0xC, 0xD, 0x1C, 0x1D, 0x1E, 0x1F, 0x20, 0x85, 0xA0, 0x1680,
     0x2000, 0x2001, 0x2002, 0x2003, 0x2004, 0x2005, 0x2006, 0x2007, 0x2008, 0x2009, 0x200A,
     0x2028, 0x2029, 0x202F, 0x205F, 0x3000]"

definition is_space :: "codepoint \<Rightarrow> bool" where
  "is_space c \<longleftrightarrow> c \<in> set whitespace"

text \<open>\<open>string.punctuation\<close>, and the literal that \<open>preprocess_text\<close> appends to it.\<close>

definition string_punctuation :: pystr where
  "string_punctuation = [0x21, 0x22, 0x23, 0x24, 0x25, 0x26, 0x27, 0x28, 0x29, 0x2A, 0x2B,
     0x2C, 0x2D, 0x2E, 0x2F, 0x3A, 0x3B, 0x3C, 0x3D, 0x3E, 0x3F, 0x40, 0x5B, 0x5C, 0x5D, 0x5E,
     0x5F, 0x60, 0x7B, 0x7C, 0x7D, 0x7E]"

definition cjk_punctuation :: pystr where
  "cjk_punctuation = [0xFF01, 0xFF1F, 0x3002, 0xFF0C, 0x3001, 0xFF1B, 0xFF1A, 0x201C, 0x201D,
     0x2018, 0x2019, 0xFF08, 0xFF09, 0x3010, 0x3011, 0x300A, 0x300B]"

subsection \<open>String methods\<close>

text \<open>\<open>s.strip()\<close>\<close>

definition strip :: "pystr \<Rightarrow> pystr" where
  "strip s = rev (dropWhile is_space (rev (dropWhile is_space s)))"

text \<open>\<open>s.replace(old, '')\<close> for a one-character \<open>old\<close>\<close>

definition replace_char :: "codepoint \<Rightarrow> pystr \<Rightarrow> pystr" where
  "replace_char old s = filter (\<lambda>c. c \<noteq> old) s"

text \<open>\<open>s.translate(str.maketrans('', '', deleted))\<close>: the table sends every character of
  \<open>deleted\<close> to \<open>None\<close>, and \<open>translate\<close> maps the string character by character.\<close>

definition translate :: "pystr \<Rightarrow> pystr \<Rightarrow> pystr" where
  "translate deleted s = concat (map (\<lambda>c. if c \<in> set deleted then [] else [c]) s)"

text \<open>\<open>re.sub(r'\s+', '', s)\<close>: from left to right, every maximal run of whitespace is
  replaced by the empty string.\<close>

function re_sub_spaces :: "pystr \<Rightarrow> pystr" where
  "re_sub_spaces [] = []"
| "re_sub_spaces (c # cs) =
     (if is_space c then re_sub_spaces (dropWhile is_space cs) else c # re_sub_spaces cs)"
  by pat_completeness auto
termination
  by (relation "measure length") (auto simp: length_dropWhile_le less_Suc_eq_le)

subsection \<open>\<open>read_file\<close>\<close>

text \<open>
  The file system is a parameter: for a path and an encoding, what
  \<open>open(file_path, 'r', encoding=encoding, errors='replace')\<close> followed by \<open>read()\<close>
  does.  It yields the text, or raises \<open>UnicodeDecodeError\<close>, or raises something else.
\<close>

datatype read_outcome = Content pystr | UnicodeDecodeError | OtherException

type_synonym file_system = "string \<Rightarrow> string \<Rightarrow> read_outcome"

text \<open>What \<open>read_file\<close> raises is one \<open>Exception\<close>, wrapped around its cause.\<close>

datatype read_error = BlankContent | NoEncodingFits | ReadFailed

definition encodings :: "string list" where
  "encodings = [''utf-8'', ''utf-8-sig'', ''gbk'', ''gb2312'', ''ISO-8859-1'', ''latin-1'']"

fun try_encodings :: "(string \<Rightarrow> read_outcome) \<Rightarrow> string list \<Rightarrow> read_error + pystr" where
  "try_encodings read_with [] = Inl NoEncodingFits"
| "try_encodings read_with (encoding # rest) =
     (case read_with encoding of
        UnicodeDecodeError \<Rightarrow> try_encodings read_with rest
      | OtherException \<Rightarrow> Inl ReadFailed
      | Content raw \<Rightarrow>
          let content = strip raw
          in if replace_char 0x20 (replace_char 0xA (replace_char 0xD content)) = []
             then Inl BlankContent else Inr content)"

definition read_file :: "file_system \<Rightarrow> string \<Rightarrow> read_error + pystr" where
  "read_file fs file_path = try_encodings (fs file_path) encodings"

subsection \<open>\<open>preprocess_text\<close>\<close>

text \<open>
  What the function takes from outside the repository is a parameter: \<open>str.isalnum\<close> and
  \<open>str.lower\<close> on one character (lowering may give more than one character), and
  \<open>jieba.cut(s, cut_all=False)\<close> as the list of its segments.
\<close>

record library =
  isalnum :: "codepoint \<Rightarrow> bool"
  lower :: "codepoint \<Rightarrow> pystr"
  jieba_cut :: "pystr \<Rightarrow> pystr list"

text \<open>The first loop, on the pair of \<open>tokens\<close> and \<open>temp_english\<close>.\<close>

definition save_english :: "pystr list \<times> pystr list \<Rightarrow> pystr list \<times> pystr list" where
  "save_english st = (case st of (tokens, temp_english) \<Rightarrow>
     if temp_english \<noteq> [] then (tokens @ [concat temp_english], []) else (tokens, temp_english))"

definition split_step :: "library \<Rightarrow> pystr list \<times> pystr list \<Rightarrow> codepoint \<Rightarrow> pystr list \<times> pystr list" where
  "split_step lib st char = (case st of (tokens, temp_english) \<Rightarrow>
     if isalnum lib char \<and> \<not> is_chinese_char [char]
     then (tokens, temp_english @ [lower lib char])
     else case save_english (tokens, temp_english) of (tokens', temp_english') \<Rightarrow>
       if is_chinese_char [char] then (tokens' @ [[char]], temp_english')
       else (tokens', temp_english'))"

definition split_scripts :: "library \<Rightarrow> pystr \<Rightarrow> pystr list" where
  "split_scripts lib text = fst (save_english (foldl (split_step lib) ([], []) text))"

text \<open>The second loop, on the pair of \<open>chinese_tokens\<close> and \<open>temp_chinese\<close>.\<close>

definition cut_chinese :: "library \<Rightarrow> pystr list \<times> pystr list \<Rightarrow> pystr list \<times> pystr list" where
  "cut_chinese lib st = (case st of (chinese_tokens, temp_chinese) \<Rightarrow>
     if temp_chinese \<noteq> [] then (chinese_tokens @ jieba_cut lib (concat temp_chinese), [])
     else (chinese_tokens, temp_chinese))"

definition segment_step :: "library \<Rightarrow> pystr list \<times> pystr list \<Rightarrow> pystr \<Rightarrow> pystr list \<times> pystr list" where
  "segment_step lib st current_token = (case st of (chinese_tokens, temp_chinese) \<Rightarrow>
     if list_ex (\<lambda>c. is_chinese_char [c]) current_token
     then (chinese_tokens, temp_chinese @ [current_token])
     else case cut_chinese lib (chinese_tokens, temp_chinese) of (chinese_tokens', temp_chinese') \<Rightarrow>
       (chinese_tokens' @ [current_token], temp_chinese'))"

definition segment :: "library \<Rightarrow> pystr list \<Rightarrow> pystr list" where
  "segment lib tokens = fst (cut_chinese lib (foldl (segment_step lib) ([], []) tokens))"

definition preprocess_text :: "library \<Rightarrow> pystr \<Rightarrow> pystr list \<times> pystr" where
  "preprocess_text lib text =
     (if text = [] then ([], [])
      else let punctuation = string_punctuation @ cjk_punctuation;
               edit_str = re_sub_spaces (translate punctuation text);
               tokens = split_scripts lib text;
               chinese_tokens = segment lib tokens;
               final_tokens = filter (\<lambda>token. strip token \<noteq> []) chinese_tokens
           in (final_tokens, edit_str))"

subsection \<open>\<open>main\<close>, from the preprocessing to the call of \<open>calculate_similarity\<close>\<close>

text \<open>\<open>main\<close> raises \<open>ValueError\<close> when preprocessing leaves no token or no character of
  one of the texts, and calls \<open>calculate_similarity\<close> otherwise.\<close>

definition main_similarity :: "library \<Rightarrow> pystr \<Rightarrow> pystr \<Rightarrow> py_exception + pyvalue" where
  "main_similarity lib original_text plagiarized_text =
     (case preprocess_text lib original_text of (original_tokens, original_str) \<Rightarrow>
      case preprocess_text lib plagiarized_text of (plagiarized_tokens, plagiarized_str) \<Rightarrow>
        if original_tokens = [] \<or> original_str = [] then Inl ValueError_original_empty
        else if plagiarized_tokens = [] \<or> plagiarized_str = []
        then Inl ValueError_plagiarized_empty
        else calculate_similarity original_tokens plagiarized_tokens
               original_str plagiarized_str)"

subsection \<open>A file in GBK\<close>

text \<open>
  A file system in which every path holds the four bytes \<open>C4 E3 BA C3\<close>, the GBK (and
  GB2312) encoding of the two characters U+4F60 U+597D.  As UTF-8 the bytes are
  malformed, and with \<open>errors='replace'\<close> the UTF-8 decoders put U+FFFD for each of the
  three malformed sequences instead of raising; ISO-8859-1 maps each byte to the code
  point of the same number.
\<close>

definition gbk_file :: file_system where
  "gbk_file file_path encoding =
     (if encoding = ''utf-8'' \<or> encoding = ''utf-8-sig'' then Content [0xFFFD, 0xFFFD, 0xFFFD]
      else if encoding = ''gbk'' \<or> encoding = ''gb2312'' then Content [0x4F60, 0x597D]
      else Content [0xC4, 0xE3, 0xBA, 0xC3])"

subsection \<open>The normalized string, as the specification describes it\<close>

text \<open>
  ASCII punctuation: the printable ASCII characters that are neither letters nor digits
  nor the space.
\<close>

definition ascii_punctuation :: "codepoint \<Rightarrow> bool" where
  "ascii_punctuation c \<longleftrightarrow>
     (0x21 \<le> c \<and> c \<le> 0x2F) \<or> (0x3A \<le> c \<and> c \<le> 0x40) \<or>
     (0x5B \<le> c \<and> c \<le> 0x60) \<or> (0x7B \<le> c \<and> c \<le> 0x7E)"

text \<open>
  The full-width marks that the specification lists: the period U+3002, the commas U+FF0C
  and U+3001, the exclamation mark U+FF01, the question mark U+FF1F, the quotation marks
  U+201C, U+201D, U+2018, U+2019 and the brackets U+FF08, U+FF09, U+3010, U+3011, U+300A,
  U+300B.
\<close>

definition listed_marks :: "codepoint list" where
  "listed_marks = [0x3002, 0xFF0C, 0x3001, 0xFF01, 0xFF1F, 0x201C, 0x201D, 0x2018, 0x2019,
     0xFF08, 0xFF09, 0x3010, 0x3011, 0x300A, 0x300B]"

text \<open>The text without ASCII punctuation, without the listed marks and without
  whitespace.\<close>

definition listed_normalized :: "pystr \<Rightarrow> pystr" where
  "listed_normalized text =
     filter (\<lambda>c. \<not> ascii_punctuation c \<and> c \<notin> set listed_marks \<and> c \<notin> set whitespace) text"

text \<open>A library for plain ASCII text: letters and digits are alphanumeric, lowering
  adds \<open>32\<close> to a capital letter, and the segmenter returns its argument as one word.\<close>

definition ascii_library :: library where
  "ascii_library = \<lparr>
     isalnum = (\<lambda>c. (0x30 \<le> c \<and> c \<le> 0x39) \<or> (0x41 \<le> c \<and> c \<le> 0x5A) \<or> (0x61 \<le> c \<and> c \<le> 0x7A)),
     lower = (\<lambda>c. if 0x41 \<le> c \<and> c \<le> 0x5A then [c + 32] else [c]),
     jieba_cut = (\<lambda>s. [s]) \<rparr>"

section \<open>Properties of the float operations\<close>

subsection \<open>Rounding\<close>

lemma bitlen_powi:
  assumes "0 < p"
  shows "(2::rat) powi (bitlen p - 1) \<le> of_int p" and "of_int p < (2::rat) powi bitlen p"
proof -
  have b1: "1 \<le> bitlen p" using assms by (auto simp: bitlen_alt_def)
  from bitlen_bounds [OF assms]
  have lo: "2 ^ nat (bitlen p - 1) \<le> p" and hi: "p < 2 ^ nat (bitlen p)" by auto
  have "(2::rat) powi (bitlen p - 1) = of_int (2 ^ nat (bitlen p - 1))"
    using b1 by (simp add: power_int_nonneg_exp)
  also have "\<dots> \<le> of_int p" using lo by (simp only: of_int_le_iff)
  finally show "(2::rat) powi (bitlen p - 1) \<le> of_int p" .
  have "(of_int p :: rat) < of_int (2 ^ nat (bitlen p))" using hi by (simp only: of_int_less_iff)
  also have "\<dots> = 2 powi bitlen p"
    using b1 by (simp add: power_int_nonneg_exp)
  finally show "of_int p < (2::rat) powi bitlen p" .
qed

lemma ilog2_bounds:
  assumes "0 < x"
  shows "2 powi ilog2 x \<le> x" and "x < 2 powi (ilog2 x + 1)"
proof -
  obtain p q where pq: "quotient_of x = (p, q)" by (cases "quotient_of x")
  have q: "0 < q" using pq by (rule quotient_of_denom_pos)
  have x: "x = of_int p / of_int q" using pq by (rule quotient_of_div)
  have p: "0 < p" using assms q x by (simp add: zero_less_divide_iff)
  define e where "e = bitlen p - bitlen q"
  have il: "ilog2 x = (if 2 powi e \<le> x then e else e - 1)"
    by (simp add: ilog2_def pq e_def)
  have qr: "0 < (of_int q :: rat)" using q by simp
  have "x < 2 powi bitlen p / 2 powi (bitlen q - 1)"
  proof -
    have "x * 2 powi (bitlen q - 1) \<le> x * of_int q"
      using bitlen_powi(1) [OF q] assms by (simp add: mult_left_mono)
    also have "\<dots> = of_int p" using qr by (simp add: x)
    also have "\<dots> < 2 powi bitlen p" by (rule bitlen_powi(2) [OF p])
    finally show ?thesis by (simp add: pos_less_divide_eq)
  qed
  also have "\<dots> = 2 powi (e + 1)"
    by (simp add: e_def power_int_diff [symmetric] algebra_simps)
  finally have up: "x < 2 powi (e + 1)" .
  have "2 powi (bitlen p - 1) / 2 powi bitlen q < x"
  proof -
    have "2 powi (bitlen p - 1) \<le> (of_int p :: rat)" by (rule bitlen_powi(1) [OF p])
    also have "\<dots> = x * of_int q" using qr by (simp add: x)
    also have "\<dots> < x * 2 powi bitlen q"
      using bitlen_powi(2) [OF q] assms by (simp add: mult_strict_left_mono)
    finally show ?thesis by (simp add: pos_divide_less_eq)
  qed
  moreover have "2 powi (bitlen p - 1) / 2 powi bitlen q = (2::rat) powi (e - 1)"
    by (simp add: e_def power_int_diff [symmetric] algebra_simps)
  ultimately have lo: "2 powi (e - 1) < x" by simp
  show "2 powi ilog2 x \<le> x" using il lo by (auto simp: less_imp_le)
  show "x < 2 powi (ilog2 x + 1)" using il up by (auto simp: not_le)
qed

lemma round_half_even_error: "\<bar>of_int (round_half_even q) - q\<bar> \<le> 1 / 2"
proof -
  have "of_int \<lfloor>q\<rfloor> \<le> q" "q < of_int \<lfloor>q\<rfloor> + 1" by linarith+
  then show ?thesis
    by (auto simp: round_half_even_def Let_def abs_le_iff)
qed

lemma round_half_even_of_int [simp]: "round_half_even (of_int n) = n"
  by (simp add: round_half_even_def)

lemma round_half_even_mono_int:
  "q \<le> of_int n \<Longrightarrow> round_half_even q \<le> n" "of_int n \<le> q \<Longrightarrow> n \<le> round_half_even q"
proof -
  show "n \<le> round_half_even q" if "of_int n \<le> q"
  proof -
    have "n \<le> \<lfloor>q\<rfloor>" using that by (simp add: le_floor_iff)
    then show ?thesis by (auto simp: round_half_even_def Let_def)
  qed
  show "round_half_even q \<le> n" if "q \<le> of_int n"
  proof (cases "q = of_int n")
    case True
    then show ?thesis by simp
  next
    case False
    with that have "q < of_int n" by simp
    then have "\<lfloor>q\<rfloor> < n" by (simp add: floor_less_iff)
    then show ?thesis by (auto simp: round_half_even_def Let_def)
  qed
qed


lemma powi_split52: "(2::rat) powi (e - 52) * 2 ^ 52 = 2 powi e"
proof -
  have "(2::rat) powi (e - 52) * 2 powi 52 = 2 powi (e - 52 + 52)"
    by (subst power_int_add) simp_all
  then show ?thesis by simp
qed

lemma powi_split53: "(2::rat) powi (e - 52) * 2 ^ 53 = 2 powi (e + 1)"
proof -
  have "(2::rat) powi (e - 52) * 2 powi 53 = 2 powi (e - 52 + 53)"
    by (subst power_int_add) simp_all
  then show ?thesis by (simp add: add.commute)
qed

text \<open>The significand of a positive number lies between \<open>2\<^sup>5\<^sup>2\<close> and \<open>2\<^sup>5\<^sup>3\<close>.\<close>

lemma significand_bounds:
  assumes "0 < a"
  shows "2 ^ 52 \<le> a / 2 powi (ilog2 a - 52)" and "a / 2 powi (ilog2 a - 52) < 2 ^ 53"
proof -
  let ?s = "(2::rat) powi (ilog2 a - 52)"
  have s: "0 < ?s" by simp
  have "?s * 2 ^ 52 \<le> a" using ilog2_bounds(1) [OF assms] by (simp only: powi_split52)
  then show "2 ^ 52 \<le> a / ?s" using s by (simp add: pos_le_divide_eq mult.commute)
  have "a < ?s * 2 ^ 53" using ilog2_bounds(2) [OF assms] by (simp only: powi_split53)
  then show "a / ?s < 2 ^ 53" using s by (simp add: pos_divide_less_eq mult.commute)
qed

lemma fl_pos_eq:
  "0 < x \<Longrightarrow> fl x = of_int (round_half_even (x / 2 powi (ilog2 x - 52))) * 2 powi (ilog2 x - 52)"
  by (simp add: fl_def Let_def)

lemma round_significand:
  assumes "0 < a"
  shows "2 ^ 52 \<le> round_half_even (a / 2 powi (ilog2 a - 52))"
    and "round_half_even (a / 2 powi (ilog2 a - 52)) \<le> 2 ^ 53"
proof -
  have "of_int (2 ^ 52) \<le> a / 2 powi (ilog2 a - 52)"
    using significand_bounds(1) [OF assms] by simp
  then show "2 ^ 52 \<le> round_half_even (a / 2 powi (ilog2 a - 52))"
    by (rule round_half_even_mono_int(2))
  have "a / 2 powi (ilog2 a - 52) \<le> of_int (2 ^ 53)"
    using significand_bounds(2) [OF assms] by simp
  then show "round_half_even (a / 2 powi (ilog2 a - 52)) \<le> 2 ^ 53"
    by (rule round_half_even_mono_int(1))
qed

lemma fl_pos: "0 < x \<Longrightarrow> 0 < fl x"
proof -
  assume x: "0 < x"
  have "(0::int) < 2 ^ 52" by simp
  also have "\<dots> \<le> round_half_even (x / 2 powi (ilog2 x - 52))"
    by (rule round_significand(1) [OF x])
  finally show ?thesis using x by (simp add: fl_pos_eq)
qed

lemma fl_nonneg: "0 \<le> x \<Longrightarrow> 0 \<le> fl x"
  using fl_pos [of x] by (cases "x = 0") (auto simp: fl_def less_imp_le)

text \<open>Rounding moves a number by at most half a unit in the last place.\<close>

lemma fl_error_pos:
  assumes "0 < x"
  shows "\<bar>fl x - x\<bar> \<le> x / 2 ^ 53"
proof -
  let ?s = "(2::rat) powi (ilog2 x - 52)"
  let ?n = "round_half_even (x / ?s)"
  have s: "0 < ?s" by simp
  have "fl x - x = (of_int ?n - x / ?s) * ?s"
    using s assms by (simp add: fl_pos_eq algebra_simps)
  then have "\<bar>fl x - x\<bar> = \<bar>of_int ?n - x / ?s\<bar> * ?s"
    using s by (simp add: abs_mult)
  also have "\<dots> \<le> 1 / 2 * ?s"
    using round_half_even_error [of "x / ?s"] s by (intro mult_right_mono) simp_all
  also have "\<dots> = ?s * 2 ^ 52 / 2 ^ 53" by simp
  also have "\<dots> = 2 powi ilog2 x / 2 ^ 53" by (simp only: powi_split52)
  also have "\<dots> \<le> x / 2 ^ 53"
    using ilog2_bounds(1) [OF assms] by (simp add: divide_right_mono)
  finally show ?thesis .
qed

lemma fl_le_powi:
  assumes "0 < x" and "x \<le> 2 powi k"
  shows "fl x \<le> 2 powi k"
proof -
  let ?e = "ilog2 x"
  let ?s = "(2::rat) powi (?e - 52)"
  let ?n = "round_half_even (x / ?s)"
  have s: "0 < ?s" by simp
  have "(2::rat) powi ?e \<le> 2 powi k"
    using ilog2_bounds(1) [OF assms(1)] assms(2) by simp
  then have ek: "?e \<le> k"
    by (metis not_le one_less_numeral_iff power_int_strict_increasing semiring_norm(76))
  show ?thesis
  proof (cases "?e = k")
    case True
    then have "x = 2 powi ?e" using ilog2_bounds(1) [OF assms(1)] assms(2) by simp
    then have "x / ?s = 2 powi ?e / ?s" by simp
    also have "\<dots> = of_int (2 ^ 52)"
      using powi_split52 [of ?e, symmetric] by simp
    finally have "?n = 2 ^ 52" by (simp only: round_half_even_of_int)
    then have "fl x = 2 ^ 52 * ?s" using assms(1) by (simp add: fl_pos_eq)
    also have "\<dots> = 2 powi ?e" using powi_split52 [of ?e] by (simp add: mult.commute)
    finally show ?thesis using True by simp
  next
    case False
    with ek have "?e + 1 \<le> k" by simp
    then have le: "(2::rat) powi (?e + 1) \<le> 2 powi k"
      by (intro power_int_increasing) simp_all
    have "fl x = of_int ?n * ?s" using assms(1) by (simp add: fl_pos_eq)
    also have "\<dots> \<le> of_int (2 ^ 53) * ?s"
      using round_significand(2) [OF assms(1)] s
      by (intro mult_right_mono) (simp_all only: of_int_le_iff less_imp_le)
    also have "\<dots> = 2 powi (?e + 1)"
      using powi_split53 [of ?e] by (simp add: mult.commute)
    finally show ?thesis using le by simp
  qed
qed

lemma fl_unit_interval:
  assumes "0 \<le> x" and "x \<le> 1"
  shows "0 \<le> fl x" and "fl x \<le> 1"
proof -
  show "0 \<le> fl x" using assms(1) by (rule fl_nonneg)
  show "fl x \<le> 1"
  proof (cases "x = 0")
    case True
    then show ?thesis by (simp add: fl_def)
  next
    case False
    with assms have "0 < x" "x \<le> 2 powi 0" by simp_all
    from fl_le_powi [OF this] show ?thesis by simp
  qed
qed


subsection \<open>Square roots\<close>

lemma isqrt_correct:
  "0 \<le> n \<Longrightarrow> 0 \<le> isqrt n \<and> isqrt n * isqrt n \<le> n \<and> n < (isqrt n + 1) * (isqrt n + 1)"
proof (induction n rule: isqrt.induct)
  case (1 n)
  show ?case
  proof (cases "n < 2")
    case True
    with "1.prems" have "n = 0 \<or> n = 1" by auto
    then show ?thesis by (auto simp: isqrt.simps [of 0] isqrt.simps [of 1])
  next
    case False
    define q where "q = n div 4"
    define r where "r = isqrt q"
    have q0: "0 \<le> q" using "1.prems" by (simp add: q_def)
    from "1.IH" [OF False] q0
    have r: "0 \<le> r" "r * r \<le> q" "q < (r + 1) * (r + 1)"
      by (simp_all add: q_def r_def)
    have n: "4 * q \<le> n" "n < 4 * q + 4" by (simp_all add: q_def)
    have lo: "(2 * r) * (2 * r) \<le> n"
    proof -
      have "(2 * r) * (2 * r) = 4 * (r * r)" by simp
      also have "\<dots> \<le> 4 * q" using r(2) by simp
      finally show ?thesis using n(1) by simp
    qed
    have hi: "n < (2 * r + 2) * (2 * r + 2)"
    proof -
      have "q + 1 \<le> (r + 1) * (r + 1)" using r(3) by simp
      then have "4 * q + 4 \<le> 4 * ((r + 1) * (r + 1))" by simp
      also have "\<dots> = (2 * r + 2) * (2 * r + 2)" by (simp add: algebra_simps)
      finally show ?thesis using n(2) by simp
    qed
    have eq: "isqrt n = isqrt_step (2 * r) n"
      using False by (simp add: isqrt.simps [of n] q_def r_def)
    show ?thesis
    proof (cases "(2 * r + 1) * (2 * r + 1) \<le> n")
      case True
      then have "isqrt n = 2 * r + 1" by (simp add: eq isqrt_step_def)
      with True hi r(1) show ?thesis by (simp add: algebra_simps)
    next
      case False
      then have "isqrt n = 2 * r" by (simp add: eq isqrt_step_def)
      with False lo r(1) show ?thesis by (simp add: algebra_simps)
    qed
  qed
qed


lemma float_sqrt_pos_eq:
  assumes "0 < x"
  defines "s \<equiv> (2::rat) powi (ilog2 x div 2 - 52)"
  defines "y \<equiv> x / (s * s)"
  defines "r \<equiv> isqrt \<lfloor>y\<rfloor>"
  shows "float_sqrt x =
    of_int (if y < of_int (r * r + r) + 1 / 4 then r
            else if of_int (r * r + r) + 1 / 4 < y then r + 1
            else if even r then r else r + 1) * s"
  using assms(1) unfolding s_def y_def r_def float_sqrt_def Let_def by simp

lemma scaled_radicand_bounds:
  assumes "0 < x"
  defines "s \<equiv> (2::rat) powi (ilog2 x div 2 - 52)"
  shows "2 ^ 104 \<le> x / (s * s)" and "x / (s * s) < 2 ^ 106"
proof -
  define k where "k = ilog2 x div 2"
  have ss: "s * s = 2 powi (2 * k - 104)"
    unfolding s_def k_def [symmetric] by (subst power_int_add [symmetric]) simp_all
  have pos: "0 < s * s" by (simp add: s_def)
  have e: "2 * k \<le> ilog2 x" "ilog2 x + 1 \<le> 2 * k + 2" by (simp_all add: k_def)
  have "(2::rat) powi (2 * k - 104) * 2 powi 104 = 2 powi (2 * k - 104 + 104)"
    by (subst power_int_add) simp_all
  then have "s * s * 2 ^ 104 = 2 powi (2 * k)" by (simp add: ss)
  also have "\<dots> \<le> 2 powi ilog2 x" using e(1) by (intro power_int_increasing) simp_all
  also have "\<dots> \<le> x" by (rule ilog2_bounds(1) [OF assms(1)])
  finally show "2 ^ 104 \<le> x / (s * s)" using pos by (simp add: pos_le_divide_eq mult.commute)
  have "(2::rat) powi (2 * k - 104) * 2 powi 106 = 2 powi (2 * k - 104 + 106)"
    by (subst power_int_add) simp_all
  then have eq: "s * s * 2 ^ 106 = 2 powi (2 * k + 2)" by (simp add: ss add.commute)
  have "x < 2 powi (ilog2 x + 1)" by (rule ilog2_bounds(2) [OF assms(1)])
  also have "\<dots> \<le> 2 powi (2 * k + 2)" using e(2) by (intro power_int_increasing) simp_all
  finally have "x < s * s * 2 ^ 106" by (simp only: eq)
  then show "x / (s * s) < 2 ^ 106" using pos by (simp add: pos_divide_less_eq mult.commute)
qed

text \<open>The rounded square root, measured against the real square root.\<close>

lemma float_sqrt_error:
  assumes "0 < x"
  shows "\<bar>real_of_rat (float_sqrt x) - sqrt (real_of_rat x)\<bar> \<le> sqrt (real_of_rat x) / 2 ^ 53"
proof -
  define s where "s = (2::rat) powi (ilog2 x div 2 - 52)"
  define y where "y = x / (s * s)"
  define r where "r = isqrt \<lfloor>y\<rfloor>"
  define n where "n = (if y < of_int (r * r + r) + 1 / 4 then r
            else if of_int (r * r + r) + 1 / 4 < y then r + 1
            else if even r then r else r + 1)"
  define S where "S = real_of_rat s"
  define Y where "Y = real_of_rat y"
  have fs: "float_sqrt x = of_int n * s"
    using float_sqrt_pos_eq [OF assms] by (simp add: s_def y_def r_def n_def)
  have s: "0 < s" by (simp add: s_def)
  have S: "0 < S" using s by (simp add: S_def)
  have ylo: "2 ^ 104 \<le> y" and yhi: "y < 2 ^ 106"
    using scaled_radicand_bounds [OF assms] by (simp_all add: y_def s_def)
  have y0: "0 \<le> \<lfloor>y\<rfloor>" using ylo by simp
  from isqrt_correct [OF y0]
  have r: "0 \<le> r" "r * r \<le> \<lfloor>y\<rfloor>" "\<lfloor>y\<rfloor> < (r + 1) * (r + 1)"
    by (simp_all add: r_def)
  have rlo: "of_int (r * r) \<le> y" using r(2) by (simp add: le_floor_iff)
  have rhi: "y < of_int ((r + 1) * (r + 1))" using r(3) by (simp add: floor_less_iff)
  have Y0: "0 \<le> Y" using ylo by (simp add: Y_def)
  have Ylo: "(2 ^ 52)\<^sup>2 \<le> Y"
  proof -
    have "real_of_rat (2 ^ 104) \<le> real_of_rat y" using ylo by (simp only: of_rat_less_eq)
    then show ?thesis by (simp add: Y_def of_rat_power)
  qed
  have sq52: "2 ^ 52 \<le> sqrt Y"
    using Ylo by (simp add: real_le_rsqrt)
  have sqlo: "real_of_int r \<le> sqrt Y"
  proof -
    have "real_of_rat (of_int (r * r)) \<le> real_of_rat y" using rlo by (simp only: of_rat_less_eq)
    then have "(real_of_int r)\<^sup>2 \<le> Y" by (simp add: Y_def power2_eq_square of_rat_mult)
    then show ?thesis by (rule real_le_rsqrt)
  qed
  have sqhi: "sqrt Y < real_of_int r + 1"
  proof -
    have "real_of_rat y < real_of_rat (of_int ((r + 1) * (r + 1)))"
      using rhi by (simp only: of_rat_less)
    then have "Y < (real_of_int r + 1)\<^sup>2"
      by (simp add: Y_def power2_eq_square of_rat_mult of_rat_add)
    moreover have "0 \<le> real_of_int r + 1" using r(1) by simp
    ultimately show ?thesis by (simp add: real_less_lsqrt)
  qed
  have half: "real_of_rat (of_int (r * r + r) + 1 / 4) = (real_of_int r + 1 / 2)\<^sup>2"
    by (simp add: of_rat_add of_rat_divide of_rat_mult power2_eq_square algebra_simps)
  have below: "sqrt Y \<le> real_of_int r + 1 / 2" if "y \<le> of_int (r * r + r) + 1 / 4"
  proof -
    have "real_of_rat y \<le> real_of_rat (of_int (r * r + r) + 1 / 4)"
      using that by (simp only: of_rat_less_eq)
    then have "Y \<le> (real_of_int r + 1 / 2)\<^sup>2" by (simp only: half Y_def)
    moreover have "0 \<le> real_of_int r + 1 / 2" using r(1) by simp
    ultimately show ?thesis by (simp add: real_le_lsqrt)
  qed
  have above: "real_of_int r + 1 / 2 \<le> sqrt Y" if "of_int (r * r + r) + 1 / 4 \<le> y"
  proof -
    have "real_of_rat (of_int (r * r + r) + 1 / 4) \<le> real_of_rat y"
      using that by (simp only: of_rat_less_eq)
    then have "(real_of_int r + 1 / 2)\<^sup>2 \<le> Y" by (simp only: half Y_def)
    then show ?thesis by (rule real_le_rsqrt)
  qed
  have near: "\<bar>real_of_int n - sqrt Y\<bar> \<le> 1 / 2"
  proof (cases "y < of_int (r * r + r) + 1 / 4")
    case True
    then have "n = r" by (simp add: n_def)
    with below sqlo True show ?thesis by (simp add: abs_le_iff less_imp_le)
  next
    case False
    show ?thesis
    proof (cases "of_int (r * r + r) + 1 / 4 < y")
      case True
      then have "n = r + 1" using False by (simp add: n_def)
      with above sqhi True show ?thesis by (simp add: abs_le_iff less_imp_le)
    next
      case F2: False
      with False have eq: "y = of_int (r * r + r) + 1 / 4" by simp
      then have "sqrt Y = real_of_int r + 1 / 2" using below above by (simp add: antisym)
      moreover have "n = r \<or> n = r + 1" using False F2 by (simp add: n_def)
      ultimately show ?thesis by auto
    qed
  qed
  have x: "x = y * (s * s)" using s by (simp add: y_def)
  have X: "real_of_rat x = Y * S\<^sup>2"
    by (simp add: x Y_def S_def of_rat_mult power2_eq_square)
  have sqX: "sqrt (real_of_rat x) = sqrt Y * S"
    using S by (simp add: X real_sqrt_mult)
  have "\<bar>real_of_rat (float_sqrt x) - sqrt (real_of_rat x)\<bar> = \<bar>real_of_int n - sqrt Y\<bar> * S"
  proof -
    have "real_of_rat (float_sqrt x) - sqrt (real_of_rat x) = (real_of_int n - sqrt Y) * S"
      by (simp add: fs sqX of_rat_mult S_def algebra_simps)
    then show ?thesis using S by (simp add: abs_mult)
  qed
  also have "\<dots> \<le> 1 / 2 * S" using near S by (intro mult_right_mono) simp_all
  also have "\<dots> = 2 ^ 52 * S / 2 ^ 53" by simp
  also have "\<dots> \<le> sqrt Y * S / 2 ^ 53"
    using sq52 S by (intro divide_right_mono mult_right_mono) simp_all
  finally show ?thesis by (simp only: sqX)
qed

lemma float_sqrt_pos:
  assumes "0 < x"
  shows "0 < float_sqrt x"
proof -
  have u: "sqrt (real_of_rat x) / 2 ^ 53 < sqrt (real_of_rat x)"
    using assms by simp
  from float_sqrt_error [OF assms] u have "0 < real_of_rat (float_sqrt x)"
    by linarith
  then show ?thesis by simp
qed


subsection \<open>Error bounds over the reals\<close>

lemma fl_error_real:
  assumes "0 < x"
  shows "(1 - 1 / 2 ^ 53) * real_of_rat x \<le> real_of_rat (fl x)"
    and "real_of_rat (fl x) \<le> (1 + 1 / 2 ^ 53) * real_of_rat x"
proof -
  from fl_error_pos [OF assms]
  have "x - x / 2 ^ 53 \<le> fl x" "fl x \<le> x + x / 2 ^ 53" by linarith+
  then have "real_of_rat (x - x / 2 ^ 53) \<le> real_of_rat (fl x)"
    "real_of_rat (fl x) \<le> real_of_rat (x + x / 2 ^ 53)"
    by (simp_all only: of_rat_less_eq)
  then show "(1 - 1 / 2 ^ 53) * real_of_rat x \<le> real_of_rat (fl x)"
    and "real_of_rat (fl x) \<le> (1 + 1 / 2 ^ 53) * real_of_rat x"
    by (simp_all add: of_rat_diff of_rat_add of_rat_divide of_rat_power of_rat_mult algebra_simps)
qed

lemma float_sqrt_error_real:
  assumes "0 < x"
  shows "(1 - 1 / 2 ^ 53) * sqrt (real_of_rat x) \<le> real_of_rat (float_sqrt x)"
    and "real_of_rat (float_sqrt x) \<le> (1 + 1 / 2 ^ 53) * sqrt (real_of_rat x)"
proof -
  define t where "t = sqrt (real_of_rat x)"
  from float_sqrt_error [OF assms]
  have "t - t / 2 ^ 53 \<le> real_of_rat (float_sqrt x)" "real_of_rat (float_sqrt x) \<le> t + t / 2 ^ 53"
    unfolding t_def by linarith+
  then show "(1 - 1 / 2 ^ 53) * sqrt (real_of_rat x) \<le> real_of_rat (float_sqrt x)"
    and "real_of_rat (float_sqrt x) \<le> (1 + 1 / 2 ^ 53) * sqrt (real_of_rat x)"
    by (simp_all add: t_def algebra_simps)
qed

text \<open>Dividing a float by the rounded square of its rounded root gives \<open>1\<close> up to a few
  units in the last place.\<close>

lemma roundtrip_upper: "(1 + 1 / 2 ^ 53) * (1 / (1 - 1 / 2 ^ 53) ^ 3) \<le> (1 + 1 / 2 ^ 50 :: real)"
  by (simp add: power3_eq_cube field_simps)

lemma roundtrip_lower: "(1 - 1 / 2 ^ 50 :: real) \<le> (1 - 1 / 2 ^ 53) * (1 / (1 + 1 / 2 ^ 53) ^ 3)"
  by (simp add: power3_eq_cube field_simps)

lemma sqrt_roundtrip:
  assumes "0 < a"
  shows "\<bar>fl (a / fl (float_sqrt a * float_sqrt a)) - 1\<bar> \<le> 1 / 2 ^ 50"
proof -
  define u :: real where "u = 1 / 2 ^ 53"
  define A where "A = real_of_rat a"
  define R where "R = real_of_rat (float_sqrt a)"
  define p where "p = fl (float_sqrt a * float_sqrt a)"
  define P where "P = real_of_rat p"
  define C where "C = real_of_rat (fl (a / p))"
  have A: "0 < A" using assms by (simp add: A_def)
  have rpos: "0 < float_sqrt a" by (rule float_sqrt_pos [OF assms])
  have ppos: "0 < p" unfolding p_def using rpos by (intro fl_pos) simp
  have P0: "0 < P" using ppos by (simp add: P_def)
  have u: "0 < u" "u < 1" by (simp_all add: u_def)
  have R1: "(1 - u) * sqrt A \<le> R" and R2: "R \<le> (1 + u) * sqrt A"
    using float_sqrt_error_real [OF assms] by (simp_all add: u_def A_def R_def)
  have sq: "sqrt A * sqrt A = A" using A by simp
  have RR1: "(1 - u)\<^sup>2 * A \<le> R * R"
  proof -
    have nn: "0 \<le> (1 - u) * sqrt A" using u A by simp
    then have "0 \<le> R" using R1 by simp
    with nn R1 have "((1 - u) * sqrt A) * ((1 - u) * sqrt A) \<le> R * R"
      by (intro mult_mono) simp_all
    moreover have "((1 - u) * sqrt A) * ((1 - u) * sqrt A) = (1 - u)\<^sup>2 * (sqrt A * sqrt A)"
      by (simp add: power2_eq_square algebra_simps)
    ultimately show ?thesis by (simp only: sq)
  qed
  have RR2: "R * R \<le> (1 + u)\<^sup>2 * A"
  proof -
    have R0: "0 \<le> R" using rpos by (simp add: R_def less_imp_le)
    have "R * R \<le> ((1 + u) * sqrt A) * ((1 + u) * sqrt A)"
      using R2 R0 by (intro mult_mono) simp_all
    moreover have "((1 + u) * sqrt A) * ((1 + u) * sqrt A) = (1 + u)\<^sup>2 * (sqrt A * sqrt A)"
      by (simp add: power2_eq_square algebra_simps)
    ultimately show ?thesis by (simp only: sq)
  qed
  have prod: "real_of_rat (float_sqrt a * float_sqrt a) = R * R"
    by (simp add: R_def of_rat_mult)
  have "0 < float_sqrt a * float_sqrt a" using rpos by simp
  from fl_error_real [OF this]
  have P1: "(1 - u) * (R * R) \<le> P" and P2: "P \<le> (1 + u) * (R * R)"
    by (simp_all add: P_def p_def prod u_def)
  have PA1: "(1 - u) ^ 3 * A \<le> P"
  proof -
    have "(1 - u) * ((1 - u)\<^sup>2 * A) \<le> (1 - u) * (R * R)"
      using RR1 u by (intro mult_left_mono) simp_all
    then show ?thesis using P1 by (simp add: power3_eq_cube power2_eq_square algebra_simps)
  qed
  have PA2: "P \<le> (1 + u) ^ 3 * A"
  proof -
    have "(1 + u) * (R * R) \<le> (1 + u) * ((1 + u)\<^sup>2 * A)"
      using RR2 u by (intro mult_left_mono) simp_all
    then show ?thesis using P2 by (simp add: power3_eq_cube power2_eq_square algebra_simps)
  qed
  have qpos: "0 < a / p" using assms ppos by simp
  have Q: "real_of_rat (a / p) = A / P" by (simp add: A_def P_def of_rat_divide)
  from fl_error_real [OF qpos]
  have C1: "(1 - u) * (A / P) \<le> C" and C2: "C \<le> (1 + u) * (A / P)"
    by (simp_all add: C_def Q u_def)
  have lo3: "0 < (1 - u) ^ 3" using u by simp
  have Q2: "A / P \<le> 1 / (1 - u) ^ 3"
  proof -
    have "A * (1 - u) ^ 3 \<le> P" using PA1 by (simp add: mult.commute)
    then have "A \<le> P / (1 - u) ^ 3" using lo3 by (simp add: pos_le_divide_eq)
    then have "A / P \<le> (P / (1 - u) ^ 3) / P" using P0 by (intro divide_right_mono) simp_all
    then show ?thesis using P0 by simp
  qed
  have Q1: "1 / (1 + u) ^ 3 \<le> A / P"
  proof -
    have hi3: "0 < (1 + u) ^ 3" using u by simp
    have "P / (1 + u) ^ 3 \<le> A" using PA2 hi3 by (simp add: pos_divide_le_eq mult.commute)
    then have "(P / (1 + u) ^ 3) / P \<le> A / P" using P0 by (intro divide_right_mono) simp_all
    then show ?thesis using P0 by simp
  qed
  have "C \<le> (1 + u) * (1 / (1 - u) ^ 3)"
    using C2 Q2 u by (meson add_pos_pos less_imp_le mult_left_mono order_trans zero_less_one)
  also have "\<dots> \<le> 1 + 1 / 2 ^ 50" unfolding u_def by (rule roundtrip_upper)
  finally have up: "C \<le> 1 + 1 / 2 ^ 50" .
  have "1 - 1 / 2 ^ 50 \<le> (1 - u) * (1 / (1 + u) ^ 3)" unfolding u_def by (rule roundtrip_lower)
  also have "\<dots> \<le> (1 - u) * (A / P)" using Q1 u by (intro mult_left_mono) simp_all
  also have "\<dots> \<le> C" by (rule C1)
  finally have lo: "1 - 1 / 2 ^ 50 \<le> C" .
  have "real_of_rat (1 - 1 / 2 ^ 50) \<le> real_of_rat (fl (a / p))"
    using lo by (simp add: C_def of_rat_diff of_rat_divide of_rat_power)
  then have l: "1 - 1 / 2 ^ 50 \<le> fl (a / p)" by (simp only: of_rat_less_eq)
  have "real_of_rat (fl (a / p)) \<le> real_of_rat (1 + 1 / 2 ^ 50)"
    using up by (simp add: C_def of_rat_add of_rat_divide of_rat_power)
  then have h: "fl (a / p) \<le> 1 + 1 / 2 ^ 50" by (simp only: of_rat_less_eq)
  from l h show ?thesis unfolding p_def by linarith
qed

section \<open>The frequency-match scorer\<close>

lemma count_words_aux:
  "foldl incr c ws w = c w + int (count_list ws w)"
  by (induction ws arbitrary: c) (auto simp: incr_def)

lemma count_words_count: "count_words ws w = int (count (mset ws) w)"
  by (simp add: count_words_def count_words_aux no_counts_def count_mset)

lemma match_step_pair:
  "match_step (c, k) w = (if c w > 0 then (c(w := c w - 1), k + 1) else (c, k))"
  by (simp add: match_step_def)

lemma match_loop_greedy:
  "(\<And>w. c w = int (count M w)) \<Longrightarrow>
   snd (foldl match_step (c, k) ws) = k + int (greedy_match M ws)"
proof (induction ws arbitrary: c k M)
  case Nil
  then show ?case by simp
next
  case (Cons v ws)
  have cv: "c v = int (count M v)" by (rule Cons.prems)
  show ?case
  proof (cases "count M v > 0")
    case True
    then have pos: "c v > 0" using cv by simp
    have "\<And>w. (c(v := c v - 1)) w = int (count (M - {#v#}) w)"
      using Cons.prems True by auto
    from Cons.IH [OF this, of "k + 1"]
    have "snd (foldl match_step (c(v := c v - 1), k + 1) ws) =
          k + 1 + int (greedy_match (M - {#v#}) ws)" .
    moreover have "foldl match_step (c, k) (v # ws) =
          foldl match_step (c(v := c v - 1), k + 1) ws"
      using pos by (simp only: foldl.simps match_step_pair if_True)
    ultimately show ?thesis using True by simp
  next
    case False
    then have npos: "\<not> c v > 0" using cv by simp
    have "foldl match_step (c, k) (v # ws) = foldl match_step (c, k) ws"
      using npos by (simp only: foldl.simps match_step_pair if_False)
    then show ?thesis
      using Cons.IH [OF Cons.prems, of k] False by simp
  qed
qed

lemma greedy_match_inter: "greedy_match M ws = size (M \<inter># mset ws)"
proof (induction ws arbitrary: M)
  case Nil
  then show ?case by simp
next
  case (Cons v ws)
  show ?case
  proof (cases "v \<in># M")
    case True
    then obtain M' where M: "M = add_mset v M'"
      by (meson mset_add)
    show ?thesis using Cons.IH [of M'] by (simp add: M)
  next
    case False
    then show ?thesis using Cons.IH [of M]
      by (simp add: not_in_iff inter_add_right1)
  qed
qed

lemma matched_count_eq:
  "snd (foldl match_step (count_words original, 0) plagiarized) =
   int (greedy_match (mset original) plagiarized)"
  using match_loop_greedy [of "count_words original" "mset original" 0 plagiarized]
  by (simp add: count_words_count)

lemma word_frequency_match_eq:
  "original \<noteq> [] \<Longrightarrow> plagiarized \<noteq> [] \<Longrightarrow>
   word_frequency_match original plagiarized =
     int_truediv (int (greedy_match (mset original) plagiarized)) (int (length plagiarized))"
  by (simp add: word_frequency_match_def matched_count_eq)

text \<open>
  Claim C2.  For non-empty lists \<open>word_frequency_match\<close> returns the float quotient of
  the number of candidate tokens that the greedy left-to-right walk over the multiset of
  original tokens matches, by the length of the candidate list; on the lists of the
  specification's example the score is \<open>0.75\<close>.
\<close>

theorem word_frequency_match_greedy:
  "(\<forall>original plagiarized. original \<noteq> [] \<and> plagiarized \<noteq> [] \<longrightarrow>
      word_frequency_match original plagiarized =
        int_truediv (int (greedy_match (mset original) plagiarized)) (int (length plagiarized)))
   \<and> word_frequency_match
        [[0x8FD9], [0x662F], [0x7B2C, 0x4E00, 0x4E2A], [0x6587, 0x672C]]
        [[0x8FD9], [0x662F], [0x7B2C, 0x4E8C, 0x4E2A], [0x6587, 0x672C]] = 3 / 4"
proof (intro conjI allI impI)
  fix original plagiarized :: "pystr list"
  assume "original \<noteq> [] \<and> plagiarized \<noteq> []"
  then show "word_frequency_match original plagiarized =
        int_truediv (int (greedy_match (mset original) plagiarized)) (int (length plagiarized))"
    using word_frequency_match_eq by blast
next
  show "word_frequency_match
        [[0x8FD9], [0x662F], [0x7B2C, 0x4E00, 0x4E2A], [0x6587, 0x672C]]
        [[0x8FD9], [0x662F], [0x7B2C, 0x4E8C, 0x4E2A], [0x6587, 0x672C]] = 3 / 4"
    by code_simp
qed

theorem word_frequency_match_greedy_witness:
  "[[97], [98]] \<noteq> ([] :: pystr list) \<and> [[98], [98]] \<noteq> ([] :: pystr list) \<and>
   word_frequency_match [[97], [98]] [[98], [98]] =
     int_truediv (int (greedy_match (mset [[97], [98]]) [[98], [98]])) (int (length [[98::int], [98]]))"
proof -
  have ne: "[[97], [98]] \<noteq> ([] :: pystr list) \<and> [[98], [98]] \<noteq> ([] :: pystr list)"
    by simp
  from word_frequency_match_greedy
  have "[[97], [98]] \<noteq> ([] :: pystr list) \<and> [[98], [98]] \<noteq> ([] :: pystr list) \<longrightarrow>
    word_frequency_match [[97], [98]] [[98], [98]] =
     int_truediv (int (greedy_match (mset [[97], [98]]) [[98], [98]])) (int (length [[98::int], [98]]))"
    by blast
  with ne show ?thesis by blast
qed

section \<open>The edit-distance scorer\<close>

subsection \<open>The recurrence\<close>

lemma lev_zero_right [simp]: "lev a b i 0 = i"
  by (cases i) auto

lemma lev_up_left: "lev a b (Suc i) j \<le> lev a b i j + 1"
  by (cases j) auto

lemma lev_up_right: "lev a b i (Suc j) \<le> lev a b i j + 1"
  by (cases i) auto

lemma lev_down_right: "lev a b i j \<le> lev a b i (Suc j) + 1"
proof (induction i arbitrary: j)
  case 0
  then show ?case by simp
next
  case (Suc i)
  have "lev a b (Suc i) j \<le> lev a b i j + 1" by (rule lev_up_left)
  moreover have "lev a b i j \<le> lev a b i (Suc j) + 1" by (rule Suc.IH)
  ultimately show ?case by (auto simp: min_def)
qed

lemma lev_down_left: "lev a b i j \<le> lev a b (Suc i) j + 1"
proof (induction j arbitrary: i)
  case 0
  then show ?case by simp
next
  case (Suc j)
  have "lev a b i (Suc j) \<le> lev a b i j + 1" by (rule lev_up_right)
  moreover have "lev a b i j \<le> lev a b (Suc i) j + 1" by (rule Suc.IH)
  ultimately show ?case by (auto simp: min_def)
qed

lemma lev_equal_chars:
  "a ! i = b ! j \<Longrightarrow> lev a b (Suc i) (Suc j) = lev a b i j"
  using lev_down_right [of a b i j] lev_down_left [of a b i j] by simp

lemma lev_differing_chars:
  "a ! i \<noteq> b ! j \<Longrightarrow>
   lev a b (Suc i) (Suc j) = 1 + min (lev a b i (Suc j)) (min (lev a b (Suc i) j) (lev a b i j))"
  by (simp add: min_def)

lemma lev_sym: "lev a b i j = lev b a j i"
  by (induction a b i j rule: lev.induct) (auto simp: min_def eq_commute)

lemma lev_le_max: "lev a b i j \<le> max i j"
proof (induction a b i j rule: lev.induct)
  case (3 a b i j)
  have "lev a b (Suc i) (Suc j) \<le> lev a b i j + 1" by (auto simp: min_def)
  with 3(3) show ?case by simp
qed simp_all

lemma lev_same: "lev a a i i = 0"
  by (induction i) (simp_all add: lev_equal_chars)


subsection \<open>The table computes the recurrence\<close>

lemma set_cell_ok: "table_ok m n dp \<Longrightarrow> table_ok m n (set_cell dp i j v)"
proof (cases "i \<le> m")
  case True
  assume "table_ok m n dp"
  with True show ?thesis
    by (auto simp: table_ok_def set_cell_def nth_list_update less_Suc_eq_le)
next
  case False
  assume "table_ok m n dp"
  with False show ?thesis
    by (simp add: table_ok_def set_cell_def)
qed

lemma set_cell_nth:
  "table_ok m n dp \<Longrightarrow> i \<le> m \<Longrightarrow> j \<le> n \<Longrightarrow> r \<le> m \<Longrightarrow> c \<le> n \<Longrightarrow>
   set_cell dp i j v ! r ! c = (if r = i \<and> c = j then v else dp ! r ! c)"
  by (auto simp: table_ok_def set_cell_def nth_list_update less_Suc_eq_le)

lemma foldl_upt_Suc: "lo \<le> k \<Longrightarrow> foldl f s [lo..<Suc k] = f (foldl f s [lo..<k]) k"
  by simp

lemma new_table_ok: "table_ok m n (new_table m n)"
  by (auto simp: table_ok_def new_table_def less_Suc_eq_le simp del: replicate_Suc)

lemma new_table_nth: "r \<le> m \<Longrightarrow> c \<le> n \<Longrightarrow> new_table m n ! r ! c = 0"
  by (simp add: new_table_def less_Suc_eq_le del: replicate_Suc)

lemma init_column_aux:
  "table_ok m n dp \<Longrightarrow> k \<le> m + 1 \<Longrightarrow>
   table_ok m n (foldl (\<lambda>dp i. set_cell dp i 0 (int i)) dp [0..<k]) \<and>
   (\<forall>r c. r \<le> m \<and> c \<le> n \<longrightarrow>
      foldl (\<lambda>dp i. set_cell dp i 0 (int i)) dp [0..<k] ! r ! c =
        (if r < k \<and> c = 0 then int r else dp ! r ! c))"
proof (induction k)
  case 0
  then show ?case by simp
next
  case (Suc k)
  then have IH: "table_ok m n (foldl (\<lambda>dp i. set_cell dp i 0 (int i)) dp [0..<k])"
    "\<And>r c. r \<le> m \<Longrightarrow> c \<le> n \<Longrightarrow>
      foldl (\<lambda>dp i. set_cell dp i 0 (int i)) dp [0..<k] ! r ! c =
        (if r < k \<and> c = 0 then int r else dp ! r ! c)"
    by auto
  have k: "k \<le> m" using Suc.prems by simp
  show ?case
    using IH k by (auto simp: set_cell_ok set_cell_nth less_Suc_eq)
qed

lemma init_row_aux:
  "table_ok m n dp \<Longrightarrow> k \<le> n + 1 \<Longrightarrow>
   table_ok m n (foldl (\<lambda>dp j. set_cell dp 0 j (int j)) dp [0..<k]) \<and>
   (\<forall>r c. r \<le> m \<and> c \<le> n \<longrightarrow>
      foldl (\<lambda>dp j. set_cell dp 0 j (int j)) dp [0..<k] ! r ! c =
        (if r = 0 \<and> c < k then int c else dp ! r ! c))"
proof (induction k)
  case 0
  then show ?case by simp
next
  case (Suc k)
  then have IH: "table_ok m n (foldl (\<lambda>dp j. set_cell dp 0 j (int j)) dp [0..<k])"
    "\<And>r c. r \<le> m \<Longrightarrow> c \<le> n \<Longrightarrow>
      foldl (\<lambda>dp j. set_cell dp 0 j (int j)) dp [0..<k] ! r ! c =
        (if r = 0 \<and> c < k then int c else dp ! r ! c)"
    by auto
  have k: "k \<le> n" using Suc.prems by simp
  show ?case
    using IH k by (auto simp: set_cell_ok set_cell_nth less_Suc_eq)
qed

lemma init_ok:
  "table_ok (length a) (length b)
     (init_row (length b) (init_column (length a) (new_table (length a) (length b))))"
  using init_column_aux [OF new_table_ok, of "length a + 1" "length a" "length b"]
    init_row_aux [of "length a" "length b" _ "length b + 1"]
  by (simp add: init_row_def init_column_def)

lemma init_done:
  "cells_done a b 1 1
     (init_row (length b) (init_column (length a) (new_table (length a) (length b))))"
proof -
  let ?m = "length a" and ?n = "length b"
  let ?d1 = "init_column ?m (new_table ?m ?n)"
  have c1: "table_ok ?m ?n ?d1"
    and v1: "\<And>r c. r \<le> ?m \<Longrightarrow> c \<le> ?n \<Longrightarrow>
       ?d1 ! r ! c = (if c = 0 then int r else 0)"
    using init_column_aux [OF new_table_ok, of "?m + 1" ?m ?n]
    by (auto simp: init_column_def new_table_nth)
  have v2: "\<And>r c. r \<le> ?m \<Longrightarrow> c \<le> ?n \<Longrightarrow>
       init_row ?n ?d1 ! r ! c = (if r = 0 then int c else ?d1 ! r ! c)"
    using init_row_aux [OF c1, of "?n + 1"] by (auto simp: init_row_def)
  show ?thesis
    unfolding cells_done_def by (auto simp: v1 v2)
qed


lemma cell_value_lev:
  assumes "cells_done a b i j dp" and "1 \<le> i" "i \<le> length a" and "1 \<le> j" "j \<le> length b"
  shows "cell_value a b dp i j = int (lev a b i j)"
proof -
  obtain i' j' where ij: "i = Suc i'" "j = Suc j'"
    using assms(2,4) by (metis Suc_le_D One_nat_def)
  have d1: "dp ! i' ! j' = int (lev a b i' j')"
    and d2: "dp ! i' ! j = int (lev a b i' j)"
    and d3: "dp ! i ! j' = int (lev a b i j')"
    using assms(1,3,5) unfolding cells_done_def ij by auto
  show ?thesis
  proof (cases "a ! i' = b ! j'")
    case True
    then show ?thesis
      using d1 lev_equal_chars [OF True] by (simp add: cell_value_def ij del: lev.simps)
  next
    case False
    then show ?thesis
      using d1 d2 d3 lev_differing_chars [OF False]
      by (simp add: cell_value_def ij del: lev.simps)
  qed
qed

lemma fill_row_aux:
  assumes ok: "table_ok (length a) (length b) dp" and dn: "cells_done a b i 1 dp"
    and i: "1 \<le> i" "i \<le> length a"
  shows "1 \<le> k \<Longrightarrow> k \<le> length b + 1 \<Longrightarrow>
    table_ok (length a) (length b)
      (foldl (\<lambda>dp j. set_cell dp i j (cell_value a b dp i j)) dp [1..<k]) \<and>
    cells_done a b i k
      (foldl (\<lambda>dp j. set_cell dp i j (cell_value a b dp i j)) dp [1..<k])"
proof (induction k)
  case 0
  then show ?case by simp
next
  case (Suc k)
  show ?case
  proof (cases "k = 0")
    case True
    then show ?thesis using ok dn by simp
  next
    case False
    let ?dp = "foldl (\<lambda>dp j. set_cell dp i j (cell_value a b dp i j)) dp [1..<k]"
    have k: "1 \<le> k" "k \<le> length b" using False Suc.prems by auto
    with Suc.IH have ok': "table_ok (length a) (length b) ?dp"
      and dn': "cells_done a b i k ?dp" by auto
    have cv: "cell_value a b ?dp i k = int (lev a b i k)"
      by (rule cell_value_lev [OF dn' i k])
    have step: "foldl (\<lambda>dp j. set_cell dp i j (cell_value a b dp i j)) dp [1..<Suc k] =
          set_cell ?dp i k (int (lev a b i k))"
      using k cv by simp
    have "cells_done a b i (Suc k) (set_cell ?dp i k (int (lev a b i k)))"
      unfolding cells_done_def
    proof (intro allI impI)
      fix r c
      assume h: "r \<le> length a \<and> c \<le> length b \<and>
        (r = 0 \<or> c = 0 \<or> r < i \<or> r = i \<and> c < Suc k)"
      then have rc: "r \<le> length a" "c \<le> length b" by auto
      show "set_cell ?dp i k (int (lev a b i k)) ! r ! c = int (lev a b r c)"
      proof (cases "r = i \<and> c = k")
        case True
        then show ?thesis using set_cell_nth [OF ok' i(2) k(2) rc] by simp
      next
        case False
        with h have "r = 0 \<or> c = 0 \<or> r < i \<or> r = i \<and> c < k" by auto
        with rc dn' have "?dp ! r ! c = int (lev a b r c)"
          unfolding cells_done_def by blast
        with False show ?thesis using set_cell_nth [OF ok' i(2) k(2) rc] by auto
      qed
    qed
    with step set_cell_ok [OF ok'] show ?thesis by simp
  qed
qed

lemma fill_row_done:
  assumes "table_ok (length a) (length b) dp" and "cells_done a b i 1 dp"
    and "1 \<le> i" "i \<le> length a"
  shows "table_ok (length a) (length b) (fill_row a b dp i) \<and>
         cells_done a b (Suc i) 1 (fill_row a b dp i)"
proof -
  from fill_row_aux [OF assms, of "length b + 1"]
  have ok: "table_ok (length a) (length b) (fill_row a b dp i)"
    and dn: "cells_done a b i (length b + 1) (fill_row a b dp i)"
    by (simp_all add: fill_row_def)
  have "cells_done a b (Suc i) 1 (fill_row a b dp i)"
    unfolding cells_done_def
  proof (intro allI impI)
    fix r c
    assume h: "r \<le> length a \<and> c \<le> length b \<and>
      (r = 0 \<or> c = 0 \<or> r < Suc i \<or> r = Suc i \<and> c < 1)"
    then have "r = 0 \<or> c = 0 \<or> r < i \<or> r = i \<and> c < length b + 1"
      by auto
    with h dn show "fill_row a b dp i ! r ! c = int (lev a b r c)"
      unfolding cells_done_def by blast
  qed
  with ok show ?thesis by simp
qed

lemma fill_table_aux:
  assumes ok: "table_ok (length a) (length b) dp" and dn: "cells_done a b 1 1 dp"
  shows "1 \<le> k \<Longrightarrow> k \<le> length a + 1 \<Longrightarrow>
    table_ok (length a) (length b) (foldl (fill_row a b) dp [1..<k]) \<and>
    cells_done a b k 1 (foldl (fill_row a b) dp [1..<k])"
proof (induction k)
  case 0
  then show ?case by simp
next
  case (Suc k)
  show ?case
  proof (cases "k = 0")
    case True
    then show ?thesis using ok dn by simp
  next
    case False
    then have k: "1 \<le> k" "k \<le> length a" using Suc.prems by auto
    with Suc.IH have "table_ok (length a) (length b) (foldl (fill_row a b) dp [1..<k])"
      and "cells_done a b k 1 (foldl (fill_row a b) dp [1..<k])" by auto
    from fill_row_done [OF this k] show ?thesis using k by simp
  qed
qed

lemma edit_table_lev:
  "edit_table a b ! length a ! length b = int (levenshtein a b)"
proof -
  from fill_table_aux [OF init_ok init_done, of "length a + 1"]
  have "cells_done a b (length a + 1) 1 (edit_table a b)"
    by (simp add: edit_table_def fill_table_def)
  then show ?thesis
    unfolding cells_done_def levenshtein_def by auto
qed

subsection \<open>The recurrence and edit scripts\<close>

lemma lev_prefix:
  "i \<le> length a \<Longrightarrow> j \<le> length b \<Longrightarrow> lev (a @ a') (b @ b') i j = lev a b i j"
  by (induction a b i j rule: lev.induct) (simp_all add: nth_append)

lemma lev_snoc_left: "j \<le> length b \<Longrightarrow> lev (a @ [x]) b (length a) j = lev a b (length a) j"
  using lev_prefix [of "length a" a j b "[x]" "[]"] by simp

lemma lev_snoc_right: "i \<le> length a \<Longrightarrow> lev a (b @ [y]) i (length b) = lev a b i (length b)"
  using lev_prefix [of i a "length b" b "[]" "[y]"] by simp

lemma lev_snoc_both:
  "lev (a @ [x]) (b @ [y]) (length a) (length b) = lev a b (length a) (length b)"
  using lev_prefix [of "length a" a "length b" b "[x]" "[y]"] by simp

lemma levenshtein_le_script: "edits a b n \<Longrightarrow> levenshtein a b \<le> n"
proof (induction rule: edits.induct)
  case finish
  then show ?case by (simp add: levenshtein_def)
next
  case (keep a b n x)
  have "lev (a @ [x]) (b @ [x]) (Suc (length a)) (Suc (length b)) =
        lev (a @ [x]) (b @ [x]) (length a) (length b)"
    by (rule lev_equal_chars) simp
  with keep.IH show ?case by (simp add: levenshtein_def lev_snoc_both del: lev.simps)
next
  case (substitute a b n x y)
  have "lev (a @ [x]) (b @ [y]) (Suc (length a)) (Suc (length b)) \<le>
        lev (a @ [x]) (b @ [y]) (length a) (length b) + 1"
    by (auto simp: min_def)
  with substitute.IH show ?case by (simp add: levenshtein_def lev_snoc_both del: lev.simps)
next
  case (delete a b n x)
  have "lev (a @ [x]) b (Suc (length a)) (length b) \<le> lev (a @ [x]) b (length a) (length b) + 1"
    by (rule lev_up_left)
  with delete.IH show ?case by (simp add: levenshtein_def lev_snoc_left del: lev.simps)
next
  case (insert a b n y)
  have "lev a (b @ [y]) (length a) (Suc (length b)) \<le> lev a (b @ [y]) (length a) (length b) + 1"
    by (rule lev_up_right)
  with insert.IH show ?case by (simp add: levenshtein_def lev_snoc_right del: lev.simps)
qed

lemma edits_insert_all: "j \<le> length b \<Longrightarrow> edits [] (take j b) j"
proof (induction j)
  case 0
  then show ?case by (simp add: edits.finish)
next
  case (Suc j)
  then have "edits [] (take j b @ [b ! j]) (Suc j)" by (intro edits.insert) simp
  then show ?case using Suc.prems by (simp add: take_Suc_conv_app_nth)
qed

lemma edits_delete_all: "i \<le> length a \<Longrightarrow> edits (take i a) [] i"
proof (induction i)
  case 0
  then show ?case by (simp add: edits.finish)
next
  case (Suc i)
  then have "edits (take i a @ [a ! i]) [] (Suc i)" by (intro edits.delete) simp
  then show ?case using Suc.prems by (simp add: take_Suc_conv_app_nth)
qed

lemma edits_prefixes:
  "i \<le> length a \<Longrightarrow> j \<le> length b \<Longrightarrow> edits (take i a) (take j b) (lev a b i j)"
proof (induction a b i j rule: lev.induct)
  case (1 a b j)
  then show ?case using edits_insert_all [of j b] by simp
next
  case (2 a b i)
  then show ?case using edits_delete_all [of "Suc i" a] by simp
next
  case (3 a b i j)
  have ta: "take (Suc i) a = take i a @ [a ! i]" and tb: "take (Suc j) b = take j b @ [b ! j]"
    using "3.prems" by (simp_all add: take_Suc_conv_app_nth)
  have e1: "edits (take i a) (take (Suc j) b) (lev a b i (Suc j))"
    and e2: "edits (take (Suc i) a) (take j b) (lev a b (Suc i) j)"
    and e3: "edits (take i a) (take j b) (lev a b i j)"
    using "3.IH" "3.prems" by simp_all
  have d: "edits (take (Suc i) a) (take (Suc j) b) (Suc (lev a b i (Suc j)))"
    unfolding ta using e1 by (rule edits.delete)
  have n: "edits (take (Suc i) a) (take (Suc j) b) (Suc (lev a b (Suc i) j))"
    unfolding tb using e2 by (rule edits.insert)
  have k: "a ! i = b ! j \<Longrightarrow> edits (take (Suc i) a) (take (Suc j) b) (lev a b i j)"
    unfolding ta tb using e3 by (simp add: edits.keep)
  have s: "edits (take (Suc i) a) (take (Suc j) b) (Suc (lev a b i j))"
    unfolding ta tb using e3 by (rule edits.substitute)
  from d n k s show ?case by (auto simp: min_def)
qed

text \<open>The recurrence gives the cost of a cheapest script.\<close>

lemma levenshtein_least_script:
  "edits a b (levenshtein a b) \<and> (\<forall>n. edits a b n \<longrightarrow> levenshtein a b \<le> n)"
  using edits_prefixes [of "length a" a "length b" b] levenshtein_le_script
  by (simp add: levenshtein_def)

subsection \<open>The score\<close>

lemma fl_one: "fl 1 = 1"
  by code_simp

lemma float_of_int_one: "float_of_int 1 = 1"
  by (simp add: float_of_int_def fl_one)

lemma edit_distance_similarity_eq:
  "a \<noteq> [] \<Longrightarrow> b \<noteq> [] \<Longrightarrow>
   edit_distance_similarity a b =
     float_sub 1 (int_truediv (int (levenshtein a b)) (int (max (length a) (length b))))"
  by (simp add: edit_distance_similarity_def edit_table_lev float_of_int_one)

text \<open>
  Claim C3.  The table computes the Levenshtein distance, the least cost of an edit
  script with unit-cost insertions, deletions and substitutions; for non-empty strings
  \<open>edit_distance_similarity\<close> is \<open>1\<close> minus the quotient of that distance by the length of
  the longer string, both operations in float arithmetic; the three examples of the
  specification give the floats \<open>0.8\<close>, \<open>0.5\<close> and \<open>0.0\<close>.
\<close>

theorem edit_distance_similarity_levenshtein:
  "(\<forall>a b. edit_table a b ! length a ! length b = int (levenshtein a b)
      \<and> edits a b (levenshtein a b) \<and> (\<forall>n. edits a b n \<longrightarrow> levenshtein a b \<le> n))
   \<and> (\<forall>a b. a \<noteq> [] \<and> b \<noteq> [] \<longrightarrow>
      edit_distance_similarity a b =
        float_sub 1 (int_truediv (int (levenshtein a b)) (int (max (length a) (length b)))))
   \<and> edit_distance_similarity [97, 98, 99, 100, 101] [97, 98, 99, 120, 101] = fl (8 / 10)
   \<and> edit_distance_similarity [0x4F60, 0x597D, 0x4E16, 0x754C] [0x4F60, 0x597D, 0x4E2D, 0x56FD]
         = fl (5 / 10)
   \<and> edit_distance_similarity [97, 98, 99] [100, 101, 102] = 0"
proof (intro conjI allI impI)
  fix a b :: pystr
  show "edit_table a b ! length a ! length b = int (levenshtein a b)"
    by (rule edit_table_lev)
  show "edits a b (levenshtein a b)"
    using levenshtein_least_script by blast
  fix n
  assume "edits a b n"
  then show "levenshtein a b \<le> n" by (rule levenshtein_le_script)
next
  fix a b :: pystr
  assume "a \<noteq> [] \<and> b \<noteq> []"
  then show "edit_distance_similarity a b =
        float_sub 1 (int_truediv (int (levenshtein a b)) (int (max (length a) (length b))))"
    using edit_distance_similarity_eq by blast
next
  show "edit_distance_similarity [97, 98, 99, 100, 101] [97, 98, 99, 120, 101] = fl (8 / 10)"
    by code_simp
next
  show "edit_distance_similarity [0x4F60, 0x597D, 0x4E16, 0x754C]
          [0x4F60, 0x597D, 0x4E2D, 0x56FD] = fl (5 / 10)"
    by code_simp
next
  show "edit_distance_similarity [97, 98, 99] [100, 101, 102] = 0"
    by code_simp
qed

theorem edit_distance_similarity_levenshtein_witness:
  "[97, 98] \<noteq> ([] :: pystr) \<and> [97] \<noteq> ([] :: pystr) \<and> edits [97, 98] [97] 1 \<and>
   levenshtein [97, 98] [97] \<le> 1 \<and>
   edit_distance_similarity [97, 98] [97] =
     float_sub 1 (int_truediv (int (levenshtein [97, 98] [97])) (int (max (length [97, 98 :: int]) (length [97 :: int]))))"
proof -
  have ne: "[97, 98] \<noteq> ([] :: pystr) \<and> [97] \<noteq> ([] :: pystr)"
    by simp
  have "edits ([] @ [97]) ([] @ [97]) 0" by (intro edits.keep edits.finish)
  then have "edits ([97] @ [98]) [97] (Suc 0)" by (intro edits.delete) simp
  then have script: "edits [97, 98] [97] 1" by simp
  note t = edit_distance_similarity_levenshtein
  have least: "levenshtein [97, 98] [97] \<le> 1"
    using t [THEN conjunct1, rule_format, of "[97, 98]" "[97]", THEN conjunct2, THEN conjunct2,
        rule_format, OF script] .
  have score: "edit_distance_similarity [97, 98] [97] =
     float_sub 1 (int_truediv (int (levenshtein [97, 98] [97])) (int (max (length [97, 98 :: int]) (length [97 :: int]))))"
    using t [THEN conjunct2, THEN conjunct1, rule_format, OF ne] .
  from ne script least score show ?thesis by (intro conjI) simp_all
qed

lemma edit_distance_similarity_sym:
  "edit_distance_similarity a b = edit_distance_similarity b a"
proof (cases "a = [] \<or> b = []")
  case True
  then show ?thesis by (auto simp: edit_distance_similarity_def)
next
  case False
  then show ?thesis
    by (simp add: edit_distance_similarity_eq levenshtein_def lev_sym [of a b] max.commute)
qed

section \<open>The cosine scorer\<close>

lemma dot_product_vector:
  "dot_product (map f v) (map g v) = sum_list (map (\<lambda>w. f w * g w) v)"
  by (induction v) (simp_all add: dot_product_def)

lemma sum_squares_vector:
  "sum_squares (map f v) = sum_list (map (\<lambda>w. (f w)\<^sup>2) v)"
  by (simp add: sum_squares_def comp_def)

lemma cosine_with_vocab_set:
  assumes "distinct v" "distinct v'" "set v = set v'"
  shows "cosine_with_vocab gs v original plagiarized =
         cosine_with_vocab gs v' original plagiarized"
  using assms
  by (simp add: cosine_with_vocab_def get_vector_def dot_product_vector sum_squares_vector
      sum_list_distinct_conv_sum_set Let_def cong: if_cong)

lemma cosine_with_vocab_sym:
  "cosine_with_vocab gs v original plagiarized = cosine_with_vocab gs v plagiarized original"
  by (simp add: cosine_with_vocab_def Let_def get_vector_def dot_product_vector
      float_mul_def mult.commute disj_commute cong: if_cong)

lemma cosine_similarity_score_sym:
  "cosine_similarity_score gs original plagiarized =
   cosine_similarity_score gs plagiarized original"
proof (cases "original = [] \<or> plagiarized = []")
  case True
  then show ?thesis by (auto simp: cosine_similarity_score_def)
next
  case False
  have "cosine_with_vocab gs (build_vocab gs (original @ plagiarized)) original plagiarized =
        cosine_with_vocab gs (build_vocab gs (plagiarized @ original)) original plagiarized"
    by (rule cosine_with_vocab_set) (auto simp: build_vocab_def)
  with False show ?thesis
    by (auto simp: cosine_similarity_score_def cosine_with_vocab_sym)
qed

section \<open>Symmetry\<close>

text \<open>
  Claim C5.  \<open>edit_distance_similarity\<close> and \<open>cosine_similarity_score\<close> give the same
  score when their two arguments are swapped, whatever the synonym table is;
  \<open>word_frequency_match\<close> does not: there are token lists for which the two directions
  differ.
\<close>

theorem scorer_symmetry:
  "(\<forall>a b. edit_distance_similarity a b = edit_distance_similarity b a)
   \<and> (\<forall>gs A B. cosine_similarity_score gs A B = cosine_similarity_score gs B A)
   \<and> (\<exists>A B. word_frequency_match A B \<noteq> word_frequency_match B A)"
proof (intro conjI allI)
  show "\<exists>A B. word_frequency_match A B \<noteq> word_frequency_match B A"
  proof (intro exI)
    have "word_frequency_match [[97]] [[97], [98]] = 1 / 2" by code_simp
    moreover have "word_frequency_match [[97], [98]] [[97]] = 1" by code_simp
    ultimately show "word_frequency_match [[97]] [[97], [98]] \<noteq>
       word_frequency_match [[97], [98]] [[97]]" by simp
  qed
qed (rule edit_distance_similarity_sym cosine_similarity_score_sym)+

section \<open>Preprocessing and reading\<close>

lemma re_sub_spaces_filter: "re_sub_spaces s = filter (\<lambda>c. \<not> is_space c) s"
proof (induction s rule: re_sub_spaces.induct)
  case 1
  then show ?case by simp
next
  case (2 c cs)
  have "filter (\<lambda>c. \<not> is_space c) (dropWhile is_space cs) = filter (\<lambda>c. \<not> is_space c) cs"
    by (induction cs) auto
  with 2 show ?case by simp
qed

lemma translate_filter: "translate deleted s = filter (\<lambda>c. c \<notin> set deleted) s"
  by (induction s) (simp_all add: translate_def)

lemma preprocess_text_filter:
  "snd (preprocess_text lib text) =
     filter (\<lambda>c. c \<notin> set string_punctuation \<and> c \<notin> set cjk_punctuation \<and> c \<notin> set whitespace) text"
  by (auto simp: preprocess_text_def Let_def re_sub_spaces_filter translate_filter is_space_def
      intro: filter_cong)

lemma string_punctuation_ascii: "c \<in> set string_punctuation \<longleftrightarrow> ascii_punctuation c"
  unfolding string_punctuation_def ascii_punctuation_def
  by (simp only: list.set insert_iff empty_iff) presburger

lemma cjk_punctuation_listed:
  "c \<in> set cjk_punctuation \<longleftrightarrow> c \<in> set listed_marks \<or> c = 0xFF1B \<or> c = 0xFF1A"
  by (auto simp: cjk_punctuation_def listed_marks_def)

text \<open>
  The function also removes the full-width semicolon U+FF1B, which is not among the listed
  marks: from the three characters \<open>a\<close>, U+FF1B, \<open>b\<close> it leaves \<open>ab\<close>, where removing
  ASCII punctuation, the listed marks and whitespace leaves all three.
\<close>

theorem preprocess_text_semicolon:
  "snd (preprocess_text ascii_library [0x61, 0xFF1B, 0x62]) = [0x61, 0x62]
   \<and> listed_normalized [0x61, 0xFF1B, 0x62] = [0x61, 0xFF1B, 0x62]"
proof
  show "snd (preprocess_text ascii_library [0x61, 0xFF1B, 0x62]) = [0x61, 0x62]"
    by code_simp
  show "listed_normalized [0x61, 0xFF1B, 0x62] = [0x61, 0xFF1B, 0x62]"
    by code_simp
qed

text \<open>
  Claim C8, as amended.  The second component of \<open>preprocess_text\<close> is the text without
  ASCII punctuation, without the listed full-width marks, without the full-width
  semicolon U+FF1B and colon U+FF1A, and without whitespace; every other character stays,
  in its place and in its case.
\<close>

theorem preprocess_text_normalized:
  "snd (preprocess_text lib text) =
     filter (\<lambda>c. \<not> ascii_punctuation c \<and> c \<notin> set listed_marks \<and> c \<noteq> 0xFF1B \<and> c \<noteq> 0xFF1A
                 \<and> c \<notin> set whitespace) text"
proof -
  have "snd (preprocess_text lib text) =
     filter (\<lambda>c. c \<notin> set string_punctuation \<and> c \<notin> set cjk_punctuation \<and> c \<notin> set whitespace) text"
    by (rule preprocess_text_filter)
  also have "\<dots> = filter (\<lambda>c. \<not> ascii_punctuation c \<and> c \<notin> set listed_marks \<and> c \<noteq> 0xFF1B
                 \<and> c \<noteq> 0xFF1A \<and> c \<notin> set whitespace) text"
    by (rule filter_cong) (auto simp: string_punctuation_ascii cjk_punctuation_listed)
  finally show ?thesis .
qed

text \<open>
  Claim C10.  On the empty string \<open>preprocess_text\<close> returns the empty token list and the
  empty string.
\<close>

theorem preprocess_text_empty: "preprocess_text lib [] = ([], [])"
  by (simp add: preprocess_text_def)

text \<open>When reading as UTF-8 raises nothing, no other encoding is tried.\<close>

lemma read_file_first_encoding:
  "fs file_path ''utf-8'' = Content raw \<Longrightarrow>
   read_file fs file_path =
     (if replace_char 0x20 (replace_char 0xA (replace_char 0xD (strip raw))) = []
      then Inl BlankContent else Inr (strip raw))"
  by (simp add: read_file_def encodings_def Let_def)

text \<open>
  Claim C9.  For the file in GBK, whose bytes are not UTF-8, \<open>read_file\<close> returns the
  three replacement characters of the UTF-8 decoder, not the two characters that GBK,
  the first encoding of the list that fits, gives.
\<close>

theorem read_file_gbk_file:
  "read_file gbk_file ''orig.txt'' = Inr [0xFFFD, 0xFFFD, 0xFFFD]"
  by code_simp

section \<open>Empty input\<close>

text \<open>\<open>calculate_similarity\<close> on empty lists and empty strings returns, as on every
  input; it raises nothing.\<close>

theorem calculate_similarity_accepts_empty:
  "calculate_similarity [] [] [] [] = Inr PyNone"
  by (simp add: calculate_similarity_def)

lemma main_similarity_rejects:
  assumes "fst (preprocess_text lib original_text) = [] \<or>
           snd (preprocess_text lib original_text) = [] \<or>
           fst (preprocess_text lib plagiarized_text) = [] \<or>
           snd (preprocess_text lib plagiarized_text) = []"
  shows "main_similarity lib original_text plagiarized_text = Inl ValueError_original_empty \<or>
         main_similarity lib original_text plagiarized_text = Inl ValueError_plagiarized_empty"
  using assms by (auto simp: main_similarity_def split: prod.splits)

text \<open>
  Claim C7, as amended.  Each scorer returns \<open>0.0\<close> when one of its two arguments is
  empty; and when preprocessing leaves an empty token list or an empty string for one of
  the two texts, \<open>main\<close> raises \<open>ValueError\<close> and does not call
  \<open>calculate_similarity\<close>.
\<close>

theorem empty_input_guards:
  "(\<forall>ts. word_frequency_match [] ts = 0 \<and> word_frequency_match ts [] = 0)
   \<and> (\<forall>gs ts. cosine_similarity_score gs [] ts = 0 \<and> cosine_similarity_score gs ts [] = 0)
   \<and> (\<forall>s. edit_distance_similarity [] s = 0 \<and> edit_distance_similarity s [] = 0)
   \<and> (\<forall>lib original_text plagiarized_text.
        fst (preprocess_text lib original_text) = [] \<or>
        snd (preprocess_text lib original_text) = [] \<or>
        fst (preprocess_text lib plagiarized_text) = [] \<or>
        snd (preprocess_text lib plagiarized_text) = [] \<longrightarrow>
        main_similarity lib original_text plagiarized_text = Inl ValueError_original_empty \<or>
        main_similarity lib original_text plagiarized_text = Inl ValueError_plagiarized_empty)"
  using main_similarity_rejects
  by (simp add: word_frequency_match_def cosine_similarity_score_def
      edit_distance_similarity_def)

theorem empty_input_guards_witness:
  "fst (preprocess_text \<lparr>isalnum = (\<lambda>c. False), lower = (\<lambda>c. [c]), jieba_cut = (\<lambda>s. [s])\<rparr> [0x21]) = []
   \<and> main_similarity \<lparr>isalnum = (\<lambda>c. False), lower = (\<lambda>c. [c]), jieba_cut = (\<lambda>s. [s])\<rparr>
        [0x21] [0x4F60] = Inl ValueError_original_empty"
proof -
  let ?lib = "\<lparr>isalnum = (\<lambda>c. False), lower = (\<lambda>c. [c]), jieba_cut = (\<lambda>s. [s])\<rparr>"
  have e: "fst (preprocess_text ?lib [0x21]) = []" by code_simp
  have ne: "main_similarity ?lib [0x21] [0x4F60] \<noteq> Inl ValueError_plagiarized_empty" by code_simp
  from empty_input_guards e
  have "main_similarity ?lib [0x21] [0x4F60] = Inl ValueError_original_empty \<or>
        main_similarity ?lib [0x21] [0x4F60] = Inl ValueError_plagiarized_empty"
    by blast
  with e ne show ?thesis by blast
qed

section \<open>Range and self-similarity\<close>

subsection \<open>Frequency match and edit distance\<close>

lemma fl_zero: "fl 0 = 0"
  by (simp add: fl_def)

lemma int_truediv_unit:
  assumes "0 \<le> m" "m \<le> n" "0 < n"
  shows "0 \<le> int_truediv m n" and "int_truediv m n \<le> 1"
proof -
  have "0 \<le> (of_int m :: rat) / of_int n" "(of_int m :: rat) / of_int n \<le> 1"
    using assms by simp_all
  then show "0 \<le> int_truediv m n" and "int_truediv m n \<le> 1"
    unfolding int_truediv_def by (rule fl_unit_interval)+
qed

lemma int_truediv_self: "0 < n \<Longrightarrow> int_truediv n n = 1"
  by (simp add: int_truediv_def fl_one)

lemma greedy_match_le: "greedy_match M ws \<le> length ws"
  by (induction ws arbitrary: M) (auto intro: le_SucI)

lemma word_frequency_match_range:
  "0 \<le> word_frequency_match original plagiarized \<and> word_frequency_match original plagiarized \<le> 1"
proof (cases "original = [] \<or> plagiarized = []")
  case True
  then show ?thesis by (auto simp: word_frequency_match_def)
next
  case False
  then have "0 < int (length plagiarized)" by simp
  moreover have "int (greedy_match (mset original) plagiarized) \<le> int (length plagiarized)"
    using greedy_match_le by simp
  ultimately show ?thesis
    using False int_truediv_unit [of "int (greedy_match (mset original) plagiarized)" "int (length plagiarized)"]
    by (simp add: word_frequency_match_eq)
qed

lemma word_frequency_match_self: "T \<noteq> [] \<Longrightarrow> word_frequency_match T T = 1"
  by (simp add: word_frequency_match_eq greedy_match_inter int_truediv_self)

lemma edit_distance_similarity_range:
  "0 \<le> edit_distance_similarity a b \<and> edit_distance_similarity a b \<le> 1"
proof (cases "a = [] \<or> b = []")
  case True
  then show ?thesis by (auto simp: edit_distance_similarity_def)
next
  case False
  let ?q = "int_truediv (int (levenshtein a b)) (int (max (length a) (length b)))"
  have "int (levenshtein a b) \<le> int (max (length a) (length b))"
    using lev_le_max [of a b "length a" "length b"] by (simp add: levenshtein_def)
  moreover have "0 < int (max (length a) (length b))" using False by (simp add: max_def)
  ultimately have "0 \<le> ?q" "?q \<le> 1"
    using int_truediv_unit [of "int (levenshtein a b)" "int (max (length a) (length b))"]
    by simp_all
  then have "0 \<le> 1 - ?q" "1 - ?q \<le> 1" by simp_all
  then have "0 \<le> fl (1 - ?q)" "fl (1 - ?q) \<le> 1" by (rule fl_unit_interval)+
  then show ?thesis using False by (simp add: edit_distance_similarity_eq float_sub_def)
qed

lemma edit_distance_similarity_self: "S \<noteq> [] \<Longrightarrow> edit_distance_similarity S S = 1"
  by (simp add: edit_distance_similarity_eq levenshtein_def lev_same int_truediv_def
      fl_zero float_sub_def fl_one)


subsection \<open>Cosine\<close>

lemma word_counts_aux:
  "foldl (\<lambda>c token. foldl incr c (gs token)) c tokens x =
   c x + sum_list (map (\<lambda>token. int (count_list (gs token) x)) tokens)"
  by (induction tokens arbitrary: c) (simp_all add: count_words_aux)

lemma word_counts_sum:
  "word_counts gs tokens x = sum_list (map (\<lambda>token. int (count_list (gs token) x)) tokens)"
  by (simp add: word_counts_def word_counts_aux no_counts_def)

lemma member_le_sum_list_int:
  "x \<in> set xs \<Longrightarrow> \<forall>y\<in>set xs. (0::int) \<le> y \<Longrightarrow> x \<le> sum_list xs"
proof (induction xs)
  case Nil
  then show ?case by simp
next
  case (Cons a xs)
  have nn: "0 \<le> sum_list xs" "0 \<le> a" using Cons.prems(2) by (auto intro: sum_list_nonneg)
  show ?case
  proof (cases "x = a")
    case True
    then show ?thesis using nn by simp
  next
    case False
    then have "x \<le> sum_list xs" using Cons by auto
    then show ?thesis using nn by simp
  qed
qed

lemma word_counts_nonneg: "0 \<le> word_counts gs tokens x"
  by (auto simp: word_counts_sum intro!: sum_list_nonneg)

lemma word_counts_pos:
  assumes "t \<in> set tokens" and "x \<in> set (gs t)"
  shows "1 \<le> word_counts gs tokens x"
proof -
  have "count_list (gs t) x \<noteq> 0"
    using assms(2) by (simp add: count_list_0_iff)
  then have "1 \<le> int (count_list (gs t) x)" by simp
  also have "\<dots> \<le> sum_list (map (\<lambda>token. int (count_list (gs token) x)) tokens)"
    using assms(1) by (intro member_le_sum_list_int) auto
  finally show ?thesis by (simp add: word_counts_sum)
qed

lemma sum_squares_nonneg: "0 \<le> sum_squares v"
  by (auto simp: sum_squares_def intro!: sum_list_nonneg)

lemma sum_squares_pos:
  assumes "x \<in> set vocab" and "1 \<le> f x"
  shows "0 < sum_squares (map f vocab)"
proof -
  have "1 * 1 \<le> f x * f x" using assms(2) by (intro mult_mono) simp_all
  then have "1 \<le> (f x)\<^sup>2" by (simp add: power2_eq_square)
  also have "\<dots> \<le> sum_list (map (\<lambda>w. (f w)\<^sup>2) vocab)"
    using assms(1) by (intro member_le_sum_list_int) auto
  finally show ?thesis by (simp add: sum_squares_vector)
qed

lemma dot_product_self: "dot_product (map f v) (map f v) = sum_squares (map f v)"
  by (simp add: dot_product_vector sum_squares_vector power2_eq_square)

lemma float_of_int_pos: "0 < n \<Longrightarrow> 0 < float_of_int n"
  by (simp add: float_of_int_def fl_pos)

lemma math_sqrt_pos: "0 < n \<Longrightarrow> 0 < math_sqrt n"
  by (simp add: math_sqrt_def float_sqrt_pos float_of_int_pos)

text \<open>The cosine score of a token list with itself, when the squared counts sum to
  \<open>n > 0\<close>: \<open>n / (\<surd>n * \<surd>n)\<close> in float arithmetic.\<close>

lemma cosine_self_value:
  assumes "T \<noteq> []" and "\<forall>t\<in>set T. t \<in> set (gs t)"
  defines "n \<equiv> sum_squares (get_vector gs (build_vocab gs (T @ T)) T)"
  shows "0 < n"
    and "cosine_similarity_score gs T T =
           float_div (float_of_int n) (float_mul (math_sqrt n) (math_sqrt n))"
proof -
  obtain t where t: "t \<in> set T" using assms(1) by (cases T) auto
  then have tt: "t \<in> set (gs t)" using assms(2) by simp
  have "t \<in> set (build_vocab gs (T @ T))" using t tt by (auto simp: build_vocab_def)
  moreover have "1 \<le> word_counts gs T t" using t tt by (rule word_counts_pos)
  ultimately show n: "0 < n" unfolding n_def get_vector_def by (rule sum_squares_pos)
  then have "math_sqrt n \<noteq> 0" using math_sqrt_pos [of n] by simp
  then show "cosine_similarity_score gs T T =
           float_div (float_of_int n) (float_mul (math_sqrt n) (math_sqrt n))"
    using assms(1)
    by (simp add: cosine_similarity_score_def cosine_with_vocab_def Let_def n_def
        get_vector_def dot_product_self)
qed

lemma cosine_self_near_one:
  assumes "T \<noteq> []" and "\<forall>t\<in>set T. t \<in> set (gs t)"
  shows "\<bar>cosine_similarity_score gs T T - 1\<bar> \<le> 1 / 2 ^ 50"
proof -
  define n where "n = sum_squares (get_vector gs (build_vocab gs (T @ T)) T)"
  have n: "0 < n" using cosine_self_value(1) [OF assms] by (simp add: n_def)
  have "cosine_similarity_score gs T T =
           float_div (float_of_int n) (float_mul (math_sqrt n) (math_sqrt n))"
    using cosine_self_value(2) [OF assms] by (simp add: n_def)
  also have "\<dots> = fl (float_of_int n /
      fl (float_sqrt (float_of_int n) * float_sqrt (float_of_int n)))"
    by (simp add: float_div_def float_mul_def math_sqrt_def)
  finally show ?thesis
    using sqrt_roundtrip [OF float_of_int_pos [OF n]] by simp
qed

text \<open>For two distinct tokens that are their own and only synonyms, the squared counts
  sum to \<open>2\<close>, and \<open>2 / (\<surd>2 * \<surd>2)\<close> is \<open>1 - 2\<^sup>-\<^sup>5\<^sup>2\<close> in float arithmetic.\<close>

theorem cosine_self_below_one:
  "cosine_similarity_score (\<lambda>t. [t]) [[97], [98]] [[97], [98]]
     = 4503599627370495 / 4503599627370496
   \<and> cosine_similarity_score (\<lambda>t. [t]) [[97], [98]] [[97], [98]] \<noteq> 1"
proof -
  have "cosine_similarity_score (\<lambda>t. [t]) [[97], [98]] [[97], [98]]
     = 4503599627370495 / 4503599627370496"
    by code_simp
  then show ?thesis by simp
qed

text \<open>
  Claim C4.  \<open>word_frequency_match\<close> and \<open>edit_distance_similarity\<close> stay in \<open>[0, 1]\<close>
  (\<open>word_frequency_match_range\<close>, \<open>edit_distance_similarity_range\<close>), but
  \<open>cosine_similarity_score\<close> does not: for three distinct tokens that are their own and
  only synonyms, the score of the list with itself is \<open>3 / (\<surd>3 * \<surd>3)\<close> in float
  arithmetic, which is \<open>1 + 2\<^sup>-\<^sup>5\<^sup>2\<close>.
\<close>

theorem cosine_above_one:
  "cosine_similarity_score (\<lambda>t. [t]) [[97], [98], [99]] [[97], [98], [99]]
     = 4503599627370497 / 4503599627370496
   \<and> 1 < cosine_similarity_score (\<lambda>t. [t]) [[97], [98], [99]] [[97], [98], [99]]"
proof -
  have "cosine_similarity_score (\<lambda>t. [t]) [[97], [98], [99]] [[97], [98], [99]]
     = 4503599627370497 / 4503599627370496"
    by code_simp
  then show ?thesis by simp
qed

text \<open>
  Claim C6, as amended.  For a non-empty token list \<open>T\<close> and a non-empty string \<open>S\<close>,
  \<open>word_frequency_match T T\<close> and \<open>edit_distance_similarity S S\<close> are \<open>1.0\<close>; when every
  token is among its own synonyms, \<open>cosine_similarity_score T T\<close> differs from \<open>1.0\<close> by
  at most \<open>2\<^sup>-\<^sup>5\<^sup>0\<close>.
\<close>

theorem self_similarity:
  "(\<forall>T. T \<noteq> [] \<longrightarrow> word_frequency_match T T = 1)
   \<and> (\<forall>S. S \<noteq> [] \<longrightarrow> edit_distance_similarity S S = 1)
   \<and> (\<forall>gs T. T \<noteq> [] \<and> (\<forall>t\<in>set T. t \<in> set (gs t)) \<longrightarrow>
         \<bar>cosine_similarity_score gs T T - 1\<bar> \<le> 1 / 2 ^ 50)"
proof (intro conjI allI impI)
  fix T :: "pystr list"
  assume "T \<noteq> []"
  then show "word_frequency_match T T = 1" by (rule word_frequency_match_self)
next
  fix S :: pystr
  assume "S \<noteq> []"
  then show "edit_distance_similarity S S = 1" by (rule edit_distance_similarity_self)
next
  fix gs and T :: "pystr list"
  assume "T \<noteq> [] \<and> (\<forall>t\<in>set T. t \<in> set (gs t))"
  then show "\<bar>cosine_similarity_score gs T T - 1\<bar> \<le> 1 / 2 ^ 50"
    using cosine_self_near_one [of T gs] by simp
qed

theorem self_similarity_witness:
  "[[97], [98]] \<noteq> ([] :: pystr list) \<and> [97, 98] \<noteq> ([] :: pystr)
   \<and> [97] \<in> set ((\<lambda>t. [t]) [97 :: int]) \<and> [98] \<in> set ((\<lambda>t. [t]) [98 :: int])
   \<and> word_frequency_match [[97], [98]] [[97], [98]] = 1
   \<and> edit_distance_similarity [97, 98] [97, 98] = 1
   \<and> \<bar>cosine_similarity_score (\<lambda>t. [t]) [[97], [98]] [[97], [98]] - 1\<bar> \<le> 1 / 2 ^ 50"
proof -
  have h1: "[[97], [98]] \<noteq> ([] :: pystr list)" by simp
  have h2: "[97, 98] \<noteq> ([] :: pystr)" by simp
  have h3: "\<forall>t\<in>set [[97], [98 :: int]]. t \<in> set ((\<lambda>t. [t]) t)" by simp
  note s = self_similarity
  have c1: "word_frequency_match [[97], [98]] [[97], [98]] = 1"
    using s [THEN conjunct1, rule_format, OF h1] .
  have c2: "edit_distance_similarity [97, 98] [97, 98] = 1"
    using s [THEN conjunct2, THEN conjunct1, rule_format, OF h2] .
  have c3: "\<bar>cosine_similarity_score (\<lambda>t. [t]) [[97], [98]] [[97], [98]] - 1\<bar> \<le> 1 / 2 ^ 50"
    using s [THEN conjunct2, THEN conjunct2, rule_format, of "[[97], [98]]" "\<lambda>t. [t]"] h1 h3
    by simp
  have h4: "[97] \<in> set ((\<lambda>t. [t]) [97 :: int])" "[98] \<in> set ((\<lambda>t. [t]) [98 :: int])"
    by simp_all
  from h1 h2 h4 c1 c2 c3 show ?thesis by (intro conjI)
qed

section \<open>The aggregator\<close>

text \<open>
  Claim C1.  On the token lists and strings of the repository's own test,
  \<open>calculate_similarity\<close> returns \<open>None\<close>, not a float: the function has no body.
\<close>

theorem calculate_similarity_returns_None:
  "calculate_similarity
     [[0x8FD9], [0x662F], [0x4E00, 0x4E2A], [0x6D4B, 0x8BD5], [0x6587, 0x672C]]
     [[0x8FD9], [0x662F], [0x4E00], [0x4E2A], [0x6D4B, 0x8BD5], [0x6587, 0x672C]]
     [0x8FD9, 0x662F, 0x4E00, 0x4E2A, 0x6D4B, 0x8BD5, 0x6587, 0x672C]
     [0x8FD9, 0x662F, 0x4E00, 0x4E2A, 0x6D4B, 0x8BD5, 0x6587, 0x672C] = Inr PyNone"
  by (simp add: calculate_similarity_def)

end
